theory Spec2Isabelle
  imports Main "HOL-Library.Sublist"
begin

section \<open>JavaScript strings\<close>

text \<open>
  A JavaScript string is a sequence of UTF-16 code units. A code unit is modelled by its
  numeric value, a string by the list of its code units; the regular expressions of
  \<^verbatim>\<open>background.js\<close> carry no \<^verbatim>\<open>u\<close> flag, so they too work on code units.
  \<open>js\<close> reads an ASCII literal of the source as such a string.
\<close>

type_synonym jsstring = "nat list"

definition js :: "string \<Rightarrow> jsstring" where
  "js s = map of_char s"

text \<open>
  The character class \<^verbatim>\<open>\w\<close> is \<^verbatim>\<open>[A-Za-z0-9_]\<close>.
\<close>

definition word_char :: "nat \<Rightarrow> bool" where
  "word_char c \<longleftrightarrow> (65 \<le> c \<and> c \<le> 90) \<or> (97 \<le> c \<and> c \<le> 122) \<or> (48 \<le> c \<and> c \<le> 57) \<or> c = 95"

text \<open>
  \<^verbatim>\<open>String.prototype.trim\<close> removes the code units of WhiteSpace and LineTerminator
  (ECMAScript 2015 and later) from both ends.
\<close>

definition white_space :: "nat \<Rightarrow> bool" where
  "white_space c \<longleftrightarrow>
     c = 9 \<or> c = 10 \<or> c = 11 \<or> c = 12 \<or> c = 13 \<or> c = 32 \<or> c = 160 \<or> c = 5760 \<or>
     (8192 \<le> c \<and> c \<le> 8202) \<or> c = 8232 \<or> c = 8233 \<or> c = 8239 \<or> c = 8287 \<or>
     c = 12288 \<or> c = 65279"

definition trim :: "jsstring \<Rightarrow> jsstring" where
  "trim s = rev (dropWhile white_space (rev (dropWhile white_space s)))"

text \<open>
  \<open>find_sub sub s\<close> looks for the leftmost occurrence of \<open>sub\<close> in \<open>s\<close> and returns what
  stands before it and what stands after it.
\<close>

fun find_sub :: "jsstring \<Rightarrow> jsstring \<Rightarrow> (jsstring \<times> jsstring) option" where
  "find_sub sub [] = (if sub = [] then Some ([], []) else None)"
| "find_sub sub (c # cs) =
     (if prefix sub (c # cs) then Some ([], drop (length sub) (c # cs))
      else map_option (\<lambda>(before, after). (c # before, after)) (find_sub sub cs))"

text \<open>\<open>find_char c s\<close> does the same for the single code unit \<open>c\<close>.\<close>

definition find_char :: "nat \<Rightarrow> jsstring \<Rightarrow> (jsstring \<times> jsstring) option" where
  "find_char c s =
     (if c \<in> set s then Some (takeWhile (\<lambda>x. x \<noteq> c) s, tl (dropWhile (\<lambda>x. x \<noteq> c) s)) else None)"

section \<open>extractArtifacts\<close>

record artifact =
  title :: jsstring
  language :: jsstring
  content :: jsstring

definition open_tag :: jsstring where
  "open_tag = js ''<antArtifact''"

definition close_tag :: jsstring where
  "close_tag = js ''</antArtifact>''"

text \<open>
  One attempt of \<^verbatim>\<open>/<antArtifact[^>]*>([\s\S]*?)<\/antArtifact>/\<close> at the start of \<open>s\<close>.
  After the literal \<^verbatim>\<open><antArtifact\<close> the greedy \<^verbatim>\<open>[^>]*\<close> cannot step over a
  \<^verbatim>\<open>>\<close>, and must be followed by one: the opening tag ends at the first \<^verbatim>\<open>>\<close>. The lazy
  \<^verbatim>\<open>[\s\S]*?\<close> then takes the shortest text after which the closing tag stands: the body
  ends at the first closing tag. The result is \<^verbatim>\<open>match[0]\<close>, \<^verbatim>\<open>match[1]\<close> and the text
  after the match.
\<close>

definition match_here :: "jsstring \<Rightarrow> (jsstring \<times> jsstring \<times> jsstring) option" where
  "match_here s =
     (if prefix open_tag s then
        (case find_char 62 (drop (length open_tag) s) of
           None \<Rightarrow> None
         | Some (attrs, r) \<Rightarrow>
             (case find_sub close_tag r of
                None \<Rightarrow> None
              | Some (body, rest) \<Rightarrow>
                  Some (open_tag @ attrs @ [62] @ body @ close_tag, body, rest)))
      else None)"

text \<open>
  \<^verbatim>\<open>fullTag.match(/title="([^"]*)/)\<close> and \<^verbatim>\<open>fullTag.match(/language="([^"]*)/)\<close>: the
  leftmost occurrence of the attribute name followed by \<^verbatim>\<open>="\<close>, and after it the code
  units up to the next double quote or the end of the string. The result is the capture
  group, \<open>None\<close> for \<^verbatim>\<open>null\<close>.
\<close>

definition attribute :: "jsstring \<Rightarrow> jsstring \<Rightarrow> jsstring option" where
  "attribute name fullTag =
     (case find_sub (name @ js ''=\"'') fullTag of
        None \<Rightarrow> None
      | Some (before, after) \<Rightarrow> Some (takeWhile (\<lambda>x. x \<noteq> 34) after))"

definition make_artifact :: "jsstring \<Rightarrow> jsstring \<Rightarrow> artifact" where
  "make_artifact fullTag body =
     \<lparr>title = (case attribute (js ''title'') fullTag of Some t \<Rightarrow> t | None \<Rightarrow> js ''Untitled''),
      language = (case attribute (js ''language'') fullTag of Some l \<Rightarrow> l | None \<Rightarrow> js ''txt''),
      content = trim body\<rparr>"

lemma find_sub_length:
  "find_sub sub s = Some (before, after) \<Longrightarrow> length before + length sub + length after = length s"
proof (induction s arbitrary: before)
  case Nil
  then show ?case by (simp split: if_splits)
next
  case (Cons c cs)
  show ?case
  proof (cases "prefix sub (c # cs)")
    case True
    then have "length sub \<le> length (c # cs)"
      by (rule prefix_length_le)
    moreover from True Cons.prems have "before = []" and "after = drop (length sub) (c # cs)"
      by auto
    ultimately show ?thesis
      by (simp del: drop_Suc_Cons)
  next
    case False
    with Cons.prems obtain b where "find_sub sub cs = Some (b, after)" and "before = c # b"
      by auto
    with Cons.IH [of b] show ?thesis by simp
  qed
qed

lemma find_char_length:
  "find_char c s = Some (before, after) \<Longrightarrow> length before + 1 + length after = length s"
proof -
  assume h: "find_char c s = Some (before, after)"
  then have mem: "c \<in> set s"
    by (simp add: find_char_def split: if_splits)
  then have ne: "dropWhile (\<lambda>x. x \<noteq> c) s \<noteq> []"
    by (simp add: dropWhile_eq_Nil_conv)
  have "length (takeWhile (\<lambda>x. x \<noteq> c) s) + length (dropWhile (\<lambda>x. x \<noteq> c) s) = length s"
    by (metis length_append takeWhile_dropWhile_id)
  with h mem ne show ?thesis
    by (cases "dropWhile (\<lambda>x. x \<noteq> c) s") (auto simp: find_char_def)
qed

lemma match_here_shorter:
  assumes "match_here s = Some (fullTag, body, rest)"
  shows "length rest < length s"
proof -
  from assms obtain attrs r where
    p: "prefix open_tag s" and
    a: "find_char 62 (drop (length open_tag) s) = Some (attrs, r)" and
    b: "find_sub close_tag r = Some (body, rest)"
    by (auto simp: match_here_def split: if_splits option.splits)
  from find_char_length [OF a] have "length r < length s" by simp
  moreover from find_sub_length [OF b] have "length rest \<le> length r" by simp
  ultimately show ?thesis by simp
qed

text \<open>
  The loop \<^verbatim>\<open>while ((match = artifactRegex.exec(text)) !== null)\<close> of a global regular
  expression: \<^verbatim>\<open>exec\<close> tries the pattern at \<^verbatim>\<open>lastIndex\<close>, then one code unit further, and
  so on to the end of the text; a match moves \<^verbatim>\<open>lastIndex\<close> behind itself. \<open>scan s\<close> is the
  list of artifacts pushed while \<open>s\<close> is the text from \<^verbatim>\<open>lastIndex\<close> on.
\<close>

function scan :: "jsstring \<Rightarrow> artifact list" where
  "scan s =
     (case match_here s of
        Some (fullTag, body, rest) \<Rightarrow> make_artifact fullTag body # scan rest
      | None \<Rightarrow> (case s of [] \<Rightarrow> [] | c # cs \<Rightarrow> scan cs))"
  by pat_completeness auto
termination
  by (relation "measure length") (auto dest: match_here_shorter)

declare scan.simps [simp del]

definition extractArtifacts :: "jsstring \<Rightarrow> artifact list" where
  "extractArtifacts text = scan text"

section \<open>getFileExtension\<close>

definition languageToExt :: "(jsstring \<times> jsstring) list" where
  "languageToExt =
     [(js ''javascript'', js ''.js''), (js ''html'', js ''.html''), (js ''css'', js ''.css''),
      (js ''python'', js ''.py''), (js ''java'', js ''.java''), (js ''c'', js ''.c''),
      (js ''cpp'', js ''.cpp''), (js ''ruby'', js ''.rb''), (js ''php'', js ''.php''),
      (js ''swift'', js ''.swift''), (js ''go'', js ''.go''), (js ''rust'', js ''.rs''),
      (js ''typescript'', js ''.ts''), (js ''shell'', js ''.sh''), (js ''sql'', js ''.sql''),
      (js ''kotlin'', js ''.kt''), (js ''scala'', js ''.scala''), (js ''r'', js ''.r''),
      (js ''matlab'', js ''.m''), (js ''json'', js ''.json''), (js ''xml'', js ''.xml''),
      (js ''yaml'', js ''.yaml''), (js ''markdown'', js ''.md''), (js ''text'', js ''.txt'')]"

text \<open>
  \<^verbatim>\<open>languageToExt\<close> is an object literal, so a lookup also finds what it inherits from
  \<^verbatim>\<open>Object.prototype\<close>. Of the inherited names only \<^verbatim>\<open>constructor\<close> and \<^verbatim>\<open>__proto__\<close> are
  in lower case; both values are truthy and are returned as they are, and the template
  literal of \<^verbatim>\<open>getUniqueFileName\<close> renders them as the texts below (V8).
\<close>

definition inherited :: "(jsstring \<times> jsstring) list" where
  "inherited =
     [(js ''constructor'', js ''function Object() { [native code] }''),
      (js ''__proto__'', js ''[object Object]'')]"

text \<open>
  \<^verbatim>\<open>String.prototype.toLowerCase\<close>, as far as the lookup can tell: the only code units
  whose lower case is an ASCII letter are \<^verbatim>\<open>A\<close> to \<^verbatim>\<open>Z\<close> and the Kelvin sign U+212A, and
  every key of the table is ASCII. The other code units are left as they are.
\<close>

definition lower_unit :: "nat \<Rightarrow> nat" where
  "lower_unit c = (if 65 \<le> c \<and> c \<le> 90 then c + 32 else if c = 8490 then 107 else c)"

definition toLowerCase :: "jsstring \<Rightarrow> jsstring" where
  "toLowerCase s = map lower_unit s"

definition getFileExtension :: "jsstring \<Rightarrow> jsstring" where
  "getFileExtension lang =
     (case map_of (languageToExt @ inherited) (toLowerCase lang) of
        Some ext \<Rightarrow> ext
      | None \<Rightarrow> js ''.txt'')"

section \<open>getUniqueFileName\<close>

text \<open>
  \<^verbatim>\<open>replace(/[^...]+/g, '_')\<close>: every maximal run of code units outside the class is
  replaced by one underscore. \<open>allowed\<close> is the class.
\<close>

function replace_runs :: "(nat \<Rightarrow> bool) \<Rightarrow> jsstring \<Rightarrow> jsstring" where
  "replace_runs allowed [] = []"
| "replace_runs allowed (c # cs) =
     (if allowed c then c # replace_runs allowed cs
      else 95 # replace_runs allowed (dropWhile (\<lambda>x. \<not> allowed x) cs))"
  by pat_completeness auto
termination
  by (relation "measure (\<lambda>(allowed, s). length s)") (auto simp: length_dropWhile_le less_Suc_eq_le)

text \<open>The class \<^verbatim>\<open>[\w\-._/]\<close> of titles and the class \<^verbatim>\<open>[\w\-._]\<close> of folder names.\<close>

definition title_char :: "nat \<Rightarrow> bool" where
  "title_char c \<longleftrightarrow> word_char c \<or> c = 45 \<or> c = 46 \<or> c = 95 \<or> c = 47"

definition folder_char :: "nat \<Rightarrow> bool" where
  "folder_char c \<longleftrightarrow> word_char c \<or> c = 45 \<or> c = 46 \<or> c = 95"

text \<open>\<^verbatim>\<open>split\<close> at a code unit and \<^verbatim>\<open>join\<close>.\<close>

fun split :: "nat \<Rightarrow> jsstring \<Rightarrow> jsstring list" where
  "split sep [] = [[]]"
| "split sep (c # cs) =
     (if c = sep then [] # split sep cs
      else (case split sep cs of [] \<Rightarrow> [[c]] | p # ps \<Rightarrow> (c # p) # ps))"

fun join :: "jsstring \<Rightarrow> jsstring list \<Rightarrow> jsstring" where
  "join sep [] = []"
| "join sep [p] = p"
| "join sep (p # q # ps) = p @ sep @ join sep (q # ps)"

text \<open>
  The decimal numeral that a template literal prints for \<^verbatim>\<open>counter\<close>. The counter is a
  double; it stays below the size of the set plus two, far from the \<open>2\<^sup>5\<^sup>3\<close> where
  \<^verbatim>\<open>counter++\<close> would stop counting, so it is modelled as a natural number.
\<close>

fun toString :: "nat \<Rightarrow> jsstring" where
  "toString n = (if n < 10 then [48 + n] else toString (n div 10) @ [48 + n mod 10])"

declare toString.simps [simp del]

lemma toString_not_Nil: "toString n \<noteq> []"
  by (subst toString.simps) simp

lemma toString_inj: "toString n = toString m \<Longrightarrow> n = m"
proof (induction n arbitrary: m rule: toString.induct)
  case (1 n)
  show ?case
  proof (cases "n < 10")
    case True
    show ?thesis
    proof (cases "m < 10")
      case True
      with \<open>n < 10\<close> "1.prems" show ?thesis
        by (simp add: toString.simps [of n] toString.simps [of m])
    next
      case False
      with \<open>n < 10\<close> "1.prems" show ?thesis
        by (simp add: toString.simps [of n] toString.simps [of m] toString_not_Nil [THEN not_sym])
    qed
  next
    case False
    show ?thesis
    proof (cases "m < 10")
      case True
      with \<open>\<not> n < 10\<close> "1.prems" show ?thesis
        by (simp add: toString.simps [of n] toString.simps [of m] toString_not_Nil)
    next
      case False
      with \<open>\<not> n < 10\<close> "1.prems"
      have "toString (n div 10) = toString (m div 10)" and "n mod 10 = m mod 10"
        by (simp_all add: toString.simps [of n] toString.simps [of m])
      with "1.IH" \<open>\<not> n < 10\<close> have "n div 10 = m div 10"
        by simp
      with \<open>n mod 10 = m mod 10\<close> show ?thesis
        by (metis div_mult_mod_eq)
    qed
  qed
qed

text \<open>The candidate that the loop tries at \<open>counter\<close>.\<close>

definition candidate :: "jsstring \<Rightarrow> jsstring \<Rightarrow> nat \<Rightarrow> jsstring" where
  "candidate baseName extension counter = baseName @ js ''_'' @ toString counter @ extension"

lemma candidate_inj: "inj (candidate baseName extension)"
  by (rule injI) (simp add: candidate_def toString_inj)

lemma finite_candidates: "finite {k. candidate baseName extension k \<in> set usedNames}"
proof -
  have "finite (candidate baseName extension -` set usedNames)"
    by (rule finite_vimageI [OF _ candidate_inj]) simp
  then show ?thesis
    by (simp add: vimage_def)
qed

text \<open>
  The set \<^verbatim>\<open>usedNames\<close> is modelled by the list of its elements in insertion order.
\<close>

definition set_add :: "jsstring \<Rightarrow> jsstring list \<Rightarrow> jsstring list" where
  "set_add x usedNames = (if x \<in> set usedNames then usedNames else usedNames @ [x])"

text \<open>
  \<^verbatim>\<open>while (usedNames.has(fileName)) { fileName = `${baseName}_${counter}${extension}`; counter++; }\<close>
\<close>

function unique_loop :: "jsstring \<Rightarrow> jsstring \<Rightarrow> jsstring list \<Rightarrow> jsstring \<Rightarrow> nat \<Rightarrow> jsstring" where
  "unique_loop baseName extension usedNames fileName counter =
     (if fileName \<in> set usedNames
      then unique_loop baseName extension usedNames (candidate baseName extension counter) (counter + 1)
      else fileName)"
  by pat_completeness auto
termination
proof (relation "measure (\<lambda>(baseName, extension, usedNames, fileName, counter).
    card {k. counter \<le> k \<and> candidate baseName extension k \<in> set usedNames} +
    (if fileName \<in> set usedNames then 1 else 0))")
  show "wf (measure (\<lambda>(baseName, extension, usedNames, fileName, counter).
    card {k. counter \<le> k \<and> candidate baseName extension k \<in> set usedNames} +
    (if fileName \<in> set usedNames then 1 else 0)))"
    by simp
next
  fix baseName extension :: jsstring and usedNames :: "jsstring list"
    and fileName :: jsstring and counter :: nat
  assume used: "fileName \<in> set usedNames"
  let ?A = "\<lambda>c. {k. c \<le> k \<and> candidate baseName extension k \<in> set usedNames}"
  have fin: "finite (?A counter)"
    using finite_candidates [of baseName extension usedNames] by simp
  have "card (?A (counter + 1)) + (if candidate baseName extension counter \<in> set usedNames then 1 else 0)
      = card (?A counter)"
  proof (cases "candidate baseName extension counter \<in> set usedNames")
    case True
    then have "?A counter = insert counter (?A (counter + 1))"
      by (auto simp: le_Suc_eq)
    moreover have "counter \<notin> ?A (counter + 1)"
      by simp
    moreover have "finite (?A (counter + 1))"
      using finite_candidates [of baseName extension usedNames] by simp
    ultimately show ?thesis
      using True by simp
  next
    case False
    then have "?A counter = ?A (counter + 1)"
      by (auto simp: Suc_le_eq order_less_le)
    with False show ?thesis
      by simp
  qed
  with used show "((baseName, extension, usedNames, candidate baseName extension counter, counter + 1),
      (baseName, extension, usedNames, fileName, counter))
    \<in> measure (\<lambda>(baseName, extension, usedNames, fileName, counter).
        card {k. counter \<le> k \<and> candidate baseName extension k \<in> set usedNames} +
        (if fileName \<in> set usedNames then 1 else 0))"
    by simp
qed

declare unique_loop.simps [simp del]

text \<open>
  The function returns the file name; the second component is \<^verbatim>\<open>usedNames\<close> after the
  call.
\<close>

definition getUniqueFileName ::
  "jsstring \<Rightarrow> jsstring \<Rightarrow> jsstring list \<Rightarrow> jsstring \<Rightarrow> jsstring \<times> jsstring list" where
  "getUniqueFileName title' language' usedNames conversationFolder =
     (let baseName = replace_runs title_char title';
          extension = getFileExtension language';
          parts = split 47 baseName;
          baseName =
            (if length parts > 1
             then (let fileName = last parts; subDir = join (js ''/'') (butlast parts)
                   in conversationFolder @ js ''/'' @ subDir @ js ''/'' @ fileName)
             else conversationFolder @ js ''/'' @ baseName);
          fileName = unique_loop baseName extension usedNames (baseName @ extension) 1
      in (fileName, set_add fileName usedNames))"

section \<open>processConversation\<close>

text \<open>
  An exception object with its \<^verbatim>\<open>message\<close>; no handler of the source looks at anything
  else. Reading a property of \<^verbatim>\<open>null\<close> throws a TypeError, whose message (V8) names the
  property.
\<close>

datatype error = Error (message: jsstring)

definition type_error :: "string \<Rightarrow> error" where
  "type_error property = Error (js ''Cannot read properties of null (reading '' @ [39] @ js property @ [39] @ js '')'')"

text \<open>
  The JSON of a conversation, typed as the source reads it. An entry of
  \<^verbatim>\<open>message.content\<close> is \<^verbatim>\<open>null\<close> or an object, modelled by its \<^verbatim>\<open>text\<close> property
  (absent or a string). \<^verbatim>\<open>message.content\<close> itself is absent (or another falsy value that
  is no string), a string, an array, or some other truthy value such as an object.
  An entry of \<^verbatim>\<open>chat_messages\<close> is \<^verbatim>\<open>null\<close> (\<open>None\<close>) or a message.
\<close>

datatype block = NullBlock | Block "jsstring option"

datatype body = Absent | Str jsstring | Blocks "block list" | Other

record message =
  sender :: jsstring
  message_content :: body
  message_text :: "jsstring option"

record conversation =
  uuid :: jsstring
  name :: "jsstring option"
  chat_messages :: "message option list option"

text \<open>The archive is modelled by the calls of \<^verbatim>\<open>zip.file(fileName, content)\<close>, in order.\<close>

type_synonym archive = "(jsstring \<times> jsstring) list"

fun truthy :: "body \<Rightarrow> bool" where
  "truthy Absent = False"
| "truthy (Str s) = (s \<noteq> [])"
| "truthy (Blocks bs) = True"
| "truthy Other = True"

text \<open>\<^verbatim>\<open>for (const content of message.content) if (content.text) messageText += content.text\<close>\<close>

fun block_texts :: "block list \<Rightarrow> jsstring \<Rightarrow> error + jsstring" where
  "block_texts [] messageText = Inr messageText"
| "block_texts (NullBlock # bs) messageText = Inl (type_error ''text'')"
| "block_texts (Block None # bs) messageText = block_texts bs messageText"
| "block_texts (Block (Some t) # bs) messageText =
     block_texts bs (if t \<noteq> [] then messageText @ t else messageText)"

text \<open>The value of \<^verbatim>\<open>messageText\<close> after the three-way branch on \<^verbatim>\<open>message.content\<close>.\<close>

definition messageText :: "message \<Rightarrow> error + jsstring" where
  "messageText m =
     (case message_content m of
        Blocks bs \<Rightarrow> block_texts bs []
      | Str s \<Rightarrow> Inr s
      | _ \<Rightarrow> (case message_text m of
                Some t \<Rightarrow> if t \<noteq> [] then Inr t else Inr []
              | None \<Rightarrow> Inr []))"

text \<open>\<^verbatim>\<open>name || 'Untitled'\<close>, for a conversation of the index as for a full one.\<close>

definition display_name :: "conversation \<Rightarrow> jsstring" where
  "display_name conv = (case name conv of Some n \<Rightarrow> if n \<noteq> [] then n else js ''Untitled'' | None \<Rightarrow> js ''Untitled'')"

text \<open>The loop over the artifacts of one message.\<close>

fun add_artifacts ::
  "jsstring \<Rightarrow> artifact list \<Rightarrow> archive \<times> jsstring list \<times> nat \<Rightarrow> archive \<times> jsstring list \<times> nat" where
  "add_artifacts conversationName [] st = st"
| "add_artifacts conversationName (a # as) (files, used, artifactCount) =
     (case getUniqueFileName (title a) (language a) used conversationName of
        (fileName, used') \<Rightarrow>
          add_artifacts conversationName as (files @ [(fileName, content a)], used', artifactCount + 1))"

text \<open>
  The loop over the messages. An exception leaves the loop; what was written to the
  archive and to \<^verbatim>\<open>usedNames\<close> before it stays written, the local count is lost.
\<close>

fun process_messages ::
  "jsstring \<Rightarrow> message option list \<Rightarrow> archive \<times> jsstring list \<times> nat \<Rightarrow>
   (error + nat) \<times> archive \<times> jsstring list" where
  "process_messages conversationName [] (files, used, artifactCount) = (Inr artifactCount, files, used)"
| "process_messages conversationName (None # ms) (files, used, artifactCount) =
     (Inl (type_error ''sender''), files, used)"
| "process_messages conversationName (Some m # ms) (files, used, artifactCount) =
     (if sender m = js ''assistant'' \<and> truthy (message_content m) then
        (case messageText m of
           Inl e \<Rightarrow> (Inl e, files, used)
         | Inr txt \<Rightarrow>
             if txt \<noteq> [] then
               process_messages conversationName ms
                 (add_artifacts conversationName (extractArtifacts txt) (files, used, artifactCount))
             else process_messages conversationName ms (files, used, artifactCount))
      else process_messages conversationName ms (files, used, artifactCount))"

definition processConversation ::
  "conversation \<Rightarrow> archive \<Rightarrow> jsstring list \<Rightarrow> (error + nat) \<times> archive \<times> jsstring list" where
  "processConversation conv files used =
     (case chat_messages conv of
        None \<Rightarrow> (Inr 0, files, used)
      | Some ms \<Rightarrow>
          (let conversationName = replace_runs folder_char (display_name conv)
           in process_messages conversationName ms (files, used, 0)))"

section \<open>The export job\<close>

text \<open>
  What the job does to the outside, in order: the call of \<^verbatim>\<open>fetchAllConversations\<close>, the
  progress message, the call of \<^verbatim>\<open>fetchConversation\<close> for one conversation, the pacing
  \<^verbatim>\<open>setTimeout\<close>, \<^verbatim>\<open>console.error\<close> for a conversation, \<^verbatim>\<open>zip.generateAsync\<close> and
  \<^verbatim>\<open>chrome.downloads.download\<close>.
\<close>

datatype event =
    FetchAllConversations jsstring
  | ExportProgress nat nat jsstring
  | FetchConversation jsstring jsstring
  | Timeout nat
  | ConsoleError jsstring
  | GenerateAsync
  | Download jsstring jsstring

fun is_progress :: "event \<Rightarrow> bool" where
  "is_progress (ExportProgress current len conversationName) = True"
| "is_progress ev = False"

fun is_fetch :: "event \<Rightarrow> bool" where
  "is_fetch (FetchConversation orgId conversationId) = True"
| "is_fetch ev = False"

fun is_transfer :: "event \<Rightarrow> bool" where
  "is_transfer GenerateAsync = True"
| "is_transfer (Download filename bytes) = True"
| "is_transfer ev = False"

text \<open>
  The argument of \<^verbatim>\<open>sendResponse\<close>: \<^verbatim>\<open>{success: false, error}\<close> or
  \<^verbatim>\<open>{success: true, artifactCount, conversationCount, totalConversations}\<close>.
\<close>

datatype response = Failed jsstring | Succeeded nat nat nat

text \<open>
  The collaborators of the job. \<^verbatim>\<open>fetch\<close> answers the \<open>k\<close>-th request of the job for a
  URL with an exception or with a response: \<^verbatim>\<open>ok\<close>, \<^verbatim>\<open>status\<close> and the outcome of
  \<^verbatim>\<open>response.json()\<close>. \<^verbatim>\<open>generateAsync\<close> turns the archive into bytes or throws, \<open>today\<close>
  is the date part of \<^verbatim>\<open>new Date().toISOString()\<close>, and \<open>download_ok\<close> tells whether
  \<^verbatim>\<open>chrome.runtime.lastError\<close> is unset in the callback of the download.
\<close>

record 'a http_response =
  ok :: bool
  status :: nat
  json :: "error + 'a"

record env =
  fetch_index :: "jsstring \<Rightarrow> error + conversation list http_response"
  fetch_full :: "nat \<Rightarrow> jsstring \<Rightarrow> error + conversation http_response"
  generateAsync :: "archive \<Rightarrow> error + jsstring"
  today :: jsstring
  download_ok :: "jsstring \<Rightarrow> jsstring \<Rightarrow> bool"

definition index_url :: "jsstring \<Rightarrow> jsstring" where
  "index_url orgId = js ''https://claude.ai/api/organizations/'' @ orgId @ js ''/chat_conversations''"

definition conversation_url :: "jsstring \<Rightarrow> jsstring \<Rightarrow> jsstring" where
  "conversation_url orgId conversationId =
     js ''https://claude.ai/api/organizations/'' @ orgId @ js ''/chat_conversations/'' @ conversationId @
     js ''?tree=True&rendering_mode=messages&render_all_tools=true''"

definition fetchAllConversations :: "env \<Rightarrow> jsstring \<Rightarrow> error + conversation list" where
  "fetchAllConversations e orgId =
     (case fetch_index e (index_url orgId) of
        Inl err \<Rightarrow> Inl err
      | Inr r \<Rightarrow>
          if \<not> ok r then Inl (Error (js ''Failed to fetch conversations: '' @ toString (status r)))
          else json r)"

definition fetchConversation :: "env \<Rightarrow> nat \<Rightarrow> jsstring \<Rightarrow> jsstring \<Rightarrow> error + conversation" where
  "fetchConversation e k orgId conversationId =
     (case fetch_full e k (conversation_url orgId conversationId) of
        Inl err \<Rightarrow> Inl err
      | Inr r \<Rightarrow>
          if \<not> ok r then Inl (Error (js ''Failed to fetch conversation: '' @ toString (status r)))
          else json r)"

record job =
  files :: archive
  usedNames :: "jsstring list"
  totalArtifacts :: nat
  conversationsWithArtifacts :: nat
  processedCount :: nat
  events :: "event list"

text \<open>
  One round of \<^verbatim>\<open>for (const conv of conversations)\<close>: the body of the \<^verbatim>\<open>try\<close>, and the
  \<^verbatim>\<open>catch\<close> where the fetch or the processing throws. \<open>len\<close> is
  \<^verbatim>\<open>conversations.length\<close>.
\<close>

definition process_entry :: "env \<Rightarrow> jsstring \<Rightarrow> nat \<Rightarrow> job \<Rightarrow> conversation \<Rightarrow> job" where
  "process_entry e orgId len st conv =
     (let k = processedCount st + 1;
          st1 = st\<lparr>processedCount := k,
                   events := events st @
                     [ExportProgress k len (display_name conv),
                      FetchConversation orgId (uuid conv)]\<rparr>
      in case fetchConversation e k orgId (uuid conv) of
           Inl err \<Rightarrow> st1\<lparr>events := events st1 @ [ConsoleError (uuid conv)]\<rparr>
         | Inr fullConv \<Rightarrow>
             (case processConversation fullConv (files st1) (usedNames st1) of
                (Inl err, files', used') \<Rightarrow>
                  st1\<lparr>files := files', usedNames := used',
                      events := events st1 @ [ConsoleError (uuid conv)]\<rparr>
              | (Inr artifactCount, files', used') \<Rightarrow>
                  st1\<lparr>files := files', usedNames := used',
                      totalArtifacts := totalArtifacts st1 + artifactCount,
                      conversationsWithArtifacts :=
                        (if artifactCount > 0 then conversationsWithArtifacts st1 + 1
                         else conversationsWithArtifacts st1),
                      events := events st1 @ [Timeout 500]\<rparr>))"

definition start :: job where
  "start = \<lparr>files = [], usedNames = [], totalArtifacts = 0, conversationsWithArtifacts = 0,
            processedCount = 0, events = []\<rparr>"

definition run_loop :: "env \<Rightarrow> jsstring \<Rightarrow> conversation list \<Rightarrow> job" where
  "run_loop e orgId conversations =
     foldl (process_entry e orgId (length conversations)) start conversations"

text \<open>
  The state of the job when round \<open>i\<close> of the loop begins (rounds are counted from 0): the
  first \<open>i\<close> entries of the index have been gone through.
\<close>

definition state_before :: "env \<Rightarrow> jsstring \<Rightarrow> conversation list \<Rightarrow> nat \<Rightarrow> job" where
  "state_before e orgId conversations i =
     foldl (process_entry e orgId (length conversations)) start (take i conversations)"

text \<open>
  The handler of the \<^verbatim>\<open>exportArtifacts\<close> request: the events of the job and the one
  response it sends.
\<close>

definition exportArtifacts :: "env \<Rightarrow> jsstring \<Rightarrow> event list \<times> response" where
  "exportArtifacts e orgId =
     (case fetchAllConversations e orgId of
        Inl err \<Rightarrow> ([FetchAllConversations orgId], Failed (message err))
      | Inr conversations \<Rightarrow>
          (let st = run_loop e orgId conversations;
               evs = FetchAllConversations orgId # events st
           in if totalArtifacts st = 0
              then (evs, Failed (js ''No artifacts found in any conversations''))
              else (case generateAsync e (files st) of
                      Inl err \<Rightarrow> (evs @ [GenerateAsync], Failed (message err))
                    | Inr bytes \<Rightarrow>
                        (let filename = js ''claude-artifacts-'' @ today e @ js ''.zip''
                         in (evs @ [GenerateAsync, Download filename bytes],
                             if download_ok e filename bytes
                             then Succeeded (totalArtifacts st) (conversationsWithArtifacts st)
                                    (length conversations)
                             else Failed (js ''Failed to download ZIP file''))))))"

section \<open>Example jobs\<close>

text \<open>
  Three entries of an index, and three full conversations: one with an artifact in a string
  body, one with an artifact spread over two content blocks, one without artifacts.
\<close>

definition entry :: "string \<Rightarrow> string \<Rightarrow> conversation" where
  "entry u n = \<lparr>uuid = js u, name = Some (js n), chat_messages = None\<rparr>"

definition with_string_body :: conversation where
  "with_string_body =
     \<lparr>uuid = js ''u1'', name = Some (js ''One''),
      chat_messages = Some
        [Some \<lparr>sender = js ''human'', message_content = Str (js ''write a.py''), message_text = None\<rparr>,
         Some \<lparr>sender = js ''assistant'',
               message_content = Str (js ''<antArtifact title=\"a.py\" language=\"python\">print(1)</antArtifact>''),
               message_text = None\<rparr>]\<rparr>"

definition with_blocks :: conversation where
  "with_blocks =
     \<lparr>uuid = js ''u3'', name = Some (js ''Three''),
      chat_messages = Some
        [Some \<lparr>sender = js ''assistant'',
               message_content = Blocks
                 [Block (Some (js ''<antArtifact title=\"b\">'')), Block None,
                  Block (Some (js ''hello</antArtifact>''))],
               message_text = None\<rparr>]\<rparr>"

definition without_artifacts :: conversation where
  "without_artifacts =
     \<lparr>uuid = js ''u0'', name = None,
      chat_messages = Some
        [Some \<lparr>sender = js ''assistant'', message_content = Str (js ''hello''), message_text = None\<rparr>]\<rparr>"

text \<open>
  \<open>failing_at j full full'\<close> is a world in which the index has the given entries, the \<open>j\<close>-th
  request for a conversation is answered with status 500, the first request with \<open>full\<close> and
  every other one with \<open>full'\<close>, and the archive and the download succeed.
\<close>

definition failing_at :: "conversation list \<Rightarrow> nat \<Rightarrow> conversation \<Rightarrow> conversation \<Rightarrow> env" where
  "failing_at index j full full' =
     \<lparr>fetch_index = (\<lambda>url. Inr \<lparr>ok = True, status = 200, json = Inr index\<rparr>),
      fetch_full = (\<lambda>k url.
        if k = j then Inr \<lparr>ok = False, status = 500, json = Inl (Error [])\<rparr>
        else Inr \<lparr>ok = True, status = 200, json = Inr (if k = 1 then full else full')\<rparr>),
      generateAsync = (\<lambda>files. Inr (js ''PK'')),
      today = js ''2024-01-01'',
      download_ok = (\<lambda>filename bytes. True)\<rparr>"

definition three_entries :: "conversation list" where
  "three_entries = [entry ''u1'' ''One'', entry ''u2'' ''Two'', entry ''u3'' ''Three'']"

text \<open>
  A conversation of one assistant message with the given \<^verbatim>\<open>content\<close> and \<^verbatim>\<open>text\<close>, and a
  text with one artifact.
\<close>

definition legacy_message :: "body \<Rightarrow> jsstring option \<Rightarrow> conversation" where
  "legacy_message b t =
     \<lparr>uuid = js ''u'', name = Some (js ''Chat''),
      chat_messages = Some [Some \<lparr>sender = js ''assistant'', message_content = b, message_text = t\<rparr>]\<rparr>"

definition tagged_text :: jsstring where
  "tagged_text = js ''<antArtifact title=\"a\">x</antArtifact>''"

section \<open>Sequences of allocations\<close>

text \<open>
  A sequence of calls of \<^verbatim>\<open>getUniqueFileName\<close> on one \<^verbatim>\<open>usedNames\<close>: each call is a title,
  a language and a folder; the result is the list of the names returned and the set after the
  last call.
\<close>

fun allocations ::
  "(jsstring \<times> jsstring \<times> jsstring) list \<Rightarrow> jsstring list \<Rightarrow> jsstring list \<times> jsstring list" where
  "allocations [] used = ([], used)"
| "allocations ((t, l, folder) # calls) used =
     (case getUniqueFileName t l used folder of
        (path, used') \<Rightarrow>
          (case allocations calls used' of (paths, used'') \<Rightarrow> (path # paths, used'')))"

text \<open>
  The names of the archive are pairwise distinct and all in \<^verbatim>\<open>usedNames\<close>: the invariant of the
  archive and the set of one job.
\<close>

definition names_registered :: "archive \<Rightarrow> jsstring list \<Rightarrow> bool" where
  "names_registered fs used \<longleftrightarrow> distinct (map fst fs) \<and> set (map fst fs) \<subseteq> set used"

section \<open>Sanitization read code unit by code unit\<close>

text \<open>
  The reading of the sanitization that replaces each single code unit outside the class by
  one underscore, for comparison with \<open>replace_runs\<close>.
\<close>

definition replace_each :: "(nat \<Rightarrow> bool) \<Rightarrow> jsstring \<Rightarrow> jsstring" where
  "replace_each allowed s = map (\<lambda>c. if allowed c then c else 95) s"

section \<open>Evaluation\<close>

lemmas eval_strings = js_def word_char_def white_space_def trim_def find_char_def
lemmas eval_alloc = Let_def getUniqueFileName_def getFileExtension_def languageToExt_def inherited_def
  toLowerCase_def lower_unit_def title_char_def folder_char_def candidate_def set_add_def
  unique_loop.simps toString.simps

lemmas eval_extract = extractArtifacts_def scan.simps match_here_def open_tag_def close_tag_def
  make_artifact_def attribute_def

lemmas eval_process = processConversation_def display_name_def messageText_def type_error_def

section \<open>Unique file names\<close>

lemma unique_loop_fresh: "unique_loop baseName extension used fileName counter \<notin> set used"
proof (induction baseName extension used fileName counter rule: unique_loop.induct)
  case (1 baseName extension used fileName counter)
  then show ?case
    by (subst unique_loop.simps) simp
qed

lemma getUniqueFileName_fresh: "fst (getUniqueFileName t l used folder) \<notin> set used"
  by (simp add: getUniqueFileName_def Let_def unique_loop_fresh)

lemma getUniqueFileName_used:
  "snd (getUniqueFileName t l used folder) = used @ [fst (getUniqueFileName t l used folder)]"
  using getUniqueFileName_fresh [of t l used folder]
  by (simp add: getUniqueFileName_def Let_def set_add_def)

lemma allocations_used:
  "snd (allocations calls used) = used @ fst (allocations calls used)"
proof (induction calls arbitrary: used)
  case Nil
  show ?case by simp
next
  case (Cons call calls)
  obtain t l folder where call: "call = (t, l, folder)"
    by (cases call)
  obtain path used' where g: "getUniqueFileName t l used folder = (path, used')"
    by (cases "getUniqueFileName t l used folder")
  with getUniqueFileName_used [of t l used folder] have u: "used' = used @ [path]"
    by simp
  obtain paths used'' where a: "allocations calls used' = (paths, used'')"
    by (cases "allocations calls used'")
  with Cons.IH [of used'] have "used'' = used' @ paths"
    by simp
  with call g a u show ?case
    by simp
qed

lemma allocations_fresh:
  "distinct (fst (allocations calls used)) \<and> set (fst (allocations calls used)) \<inter> set used = {}"
proof (induction calls arbitrary: used)
  case Nil
  show ?case by simp
next
  case (Cons call calls)
  obtain t l folder where call: "call = (t, l, folder)"
    by (cases call)
  obtain path used' where g: "getUniqueFileName t l used folder = (path, used')"
    by (cases "getUniqueFileName t l used folder")
  with getUniqueFileName_used [of t l used folder] have u: "used' = used @ [path]"
    by simp
  from g getUniqueFileName_fresh [of t l used folder] have f: "path \<notin> set used"
    by simp
  obtain paths used'' where a: "allocations calls used' = (paths, used'')"
    by (cases "allocations calls used'")
  with Cons.IH [of used'] have "distinct paths" and "set paths \<inter> set used' = {}"
    by simp_all
  with call g a u f show ?case
    by auto
qed

lemma add_artifacts_registered:
  "names_registered fs used \<Longrightarrow> add_artifacts cn arts (fs, used, n) = (fs', used', n') \<Longrightarrow>
   names_registered fs' used'"
proof (induction arts arbitrary: fs used n)
  case Nil
  then show ?case by simp
next
  case (Cons a arts)
  obtain fileName used1 where g: "getUniqueFileName (title a) (language a) used cn = (fileName, used1)"
    by (cases "getUniqueFileName (title a) (language a) used cn")
  with getUniqueFileName_fresh [of "title a" "language a" used cn]
    getUniqueFileName_used [of "title a" "language a" used cn]
  have fresh: "fileName \<notin> set used" and used1: "used1 = used @ [fileName]"
    by simp_all
  with Cons.prems(1) have "names_registered (fs @ [(fileName, content a)]) used1"
    by (auto simp: names_registered_def)
  moreover from Cons.prems(2) g
  have "add_artifacts cn arts (fs @ [(fileName, content a)], used1, n + 1) = (fs', used', n')"
    by simp
  ultimately show ?case
    by (rule Cons.IH)
qed

lemma process_messages_registered:
  "names_registered fs used \<Longrightarrow> process_messages cn ms (fs, used, n) = (r, fs', used') \<Longrightarrow>
   names_registered fs' used'"
proof (induction ms arbitrary: fs used n)
  case Nil
  then show ?case by simp
next
  case (Cons m ms)
  show ?case
  proof (cases m)
    case None
    with Cons.prems show ?thesis by simp
  next
    case (Some msg)
    show ?thesis
    proof (cases "sender msg = js ''assistant'' \<and> truthy (message_content msg)")
      case False
      with Some Cons.prems have "process_messages cn ms (fs, used, n) = (r, fs', used')"
        by auto
      with Cons.prems(1) show ?thesis
        by (rule Cons.IH)
    next
      case True
      note guard = True
      show ?thesis
      proof (cases "messageText msg")
        case (Inl err)
        with guard Some Cons.prems show ?thesis by simp
      next
        case (Inr mt)
        show ?thesis
        proof (cases "mt = []")
          case True
          with Inr guard Some Cons.prems
          have "process_messages cn ms (fs, used, n) = (r, fs', used')"
            by simp
          with Cons.prems(1) show ?thesis
            by (rule Cons.IH)
        next
          case False
          obtain fs1 used1 n1 where a: "add_artifacts cn (extractArtifacts mt) (fs, used, n) = (fs1, used1, n1)"
            by (cases "add_artifacts cn (extractArtifacts mt) (fs, used, n)")
          from add_artifacts_registered [OF Cons.prems(1) a] have "names_registered fs1 used1" .
          moreover from a False Inr guard Some Cons.prems
          have "process_messages cn ms (fs1, used1, n1) = (r, fs', used')"
            by simp
          ultimately show ?thesis
            by (rule Cons.IH)
        qed
      qed
    qed
  qed
qed

lemma processConversation_registered:
  "names_registered fs used \<Longrightarrow> processConversation conv fs used = (r, fs', used') \<Longrightarrow>
   names_registered fs' used'"
  by (auto simp: processConversation_def Let_def split: option.splits
      dest: process_messages_registered)

lemma process_entry_registered:
  assumes "names_registered (files st) (usedNames st)"
  shows "names_registered (files (process_entry e orgId n st c)) (usedNames (process_entry e orgId n st c))"
proof (cases "fetchConversation e (processedCount st + 1) orgId (uuid c)")
  case (Inl err)
  with assms show ?thesis
    by (simp add: process_entry_def Let_def)
next
  case (Inr full)
  obtain r fs' used' where p: "processConversation full (files st) (usedNames st) = (r, fs', used')"
    by (cases "processConversation full (files st) (usedNames st)")
  from processConversation_registered [OF assms p] have "names_registered fs' used'" .
  with Inr p show ?thesis
    by (cases r) (simp_all add: process_entry_def Let_def)
qed

lemma loop_registered:
  "names_registered (files st) (usedNames st) \<Longrightarrow>
   names_registered (files (foldl (process_entry e orgId n) st cs))
     (usedNames (foldl (process_entry e orgId n) st cs))"
  by (induction cs arbitrary: st) (simp_all add: process_entry_registered)

lemma job_names_distinct: "distinct (map fst (files (run_loop e orgId conversations)))"
  using loop_registered [of start e orgId "length conversations" conversations]
  by (simp add: run_loop_def names_registered_def start_def)

text \<open>
  C1. Whatever calls of \<^verbatim>\<open>getUniqueFileName\<close> are made on one \<^verbatim>\<open>usedNames\<close>, with whatever
  titles, languages and folders: the names returned are pairwise distinct and none of them was
  in the set before; the set after the calls is the set before them with the returned names
  appended, so nothing is removed or renamed; and a single call returns a name that was not in
  the set and leaves the set with exactly that name added. In a job, whose calls all share the
  one set created at its start, the names written to the archive are pairwise distinct.
\<close>

theorem allocations_unique:
  "distinct (fst (allocations calls used)) \<and>
   set (fst (allocations calls used)) \<inter> set used = {} \<and>
   snd (allocations calls used) = used @ fst (allocations calls used) \<and>
   fst (getUniqueFileName t l used folder) \<notin> set used \<and>
   snd (getUniqueFileName t l used folder) = used @ [fst (getUniqueFileName t l used folder)] \<and>
   distinct (map fst (files (run_loop e orgId conversations)))"
  using allocations_fresh [of calls used] allocations_used [of calls used]
    getUniqueFileName_fresh [of t l used folder] getUniqueFileName_used [of t l used folder]
    job_names_distinct [of e orgId conversations]
  by simp

theorem allocations_unique_witness:
  "allocations [(js ''a b'', js ''python'', js ''c''), (js ''a?b'', js ''Python'', js ''c''), (js ''a_b'', js ''PYTHON'', js ''c'')] [] =
     ([js ''c/a_b.py'', js ''c/a_b_1.py'', js ''c/a_b_2.py''], [js ''c/a_b.py'', js ''c/a_b_1.py'', js ''c/a_b_2.py'']) \<and>
   distinct [js ''c/a_b.py'', js ''c/a_b_1.py'', js ''c/a_b_2.py'']"
  using allocations_unique [of "[(js ''a b'', js ''python'', js ''c''), (js ''a?b'', js ''Python'', js ''c''), (js ''a_b'', js ''PYTHON'', js ''c'')]" "[]" "[]" "[]" "[]"]
  by (simp add: eval_strings eval_alloc)

section \<open>Sanitized titles\<close>

lemma replace_runs_length: "length (replace_runs allowed s) \<le> length s"
proof (induction allowed s rule: replace_runs.induct)
  case (1 allowed)
  show ?case by simp
next
  case (2 allowed c cs)
  have "length (dropWhile (\<lambda>x. \<not> allowed x) cs) \<le> length cs"
    by (rule length_dropWhile_le)
  with 2 show ?case
    by (cases "allowed c") auto
qed

lemma replace_runs_all_ok: "(\<forall>c\<in>set s. allowed c) \<Longrightarrow> replace_runs allowed s = s"
  by (induction s) simp_all

lemma replace_runs_append:
  "xs = [] \<or> allowed (last xs) \<Longrightarrow> replace_runs allowed (xs @ ys) = replace_runs allowed xs @ replace_runs allowed ys"
proof (induction allowed xs rule: replace_runs.induct)
  case (1 allowed)
  show ?case by simp
next
  case (2 allowed c cs)
  show ?case
  proof (cases "allowed c")
    case True
    from "2.prems" have "cs = [] \<or> allowed (last cs)"
      by (auto split: if_splits)
    with "2.IH"(1) True show ?thesis
      by simp
  next
    case False
    with "2.prems" have ne: "cs \<noteq> []" and l: "allowed (last cs)"
      by (auto split: if_splits)
    then have "last cs \<in> set cs"
      by simp
    with l have d: "dropWhile (\<lambda>x. \<not> allowed x) (cs @ ys) = dropWhile (\<lambda>x. \<not> allowed x) cs @ ys"
      by (intro dropWhile_append1 [of "last cs"]) simp_all
    from ne l have "dropWhile (\<lambda>x. \<not> allowed x) cs \<noteq> []"
      by (auto simp: dropWhile_eq_Nil_conv intro: bexI [of _ "last cs"])
    moreover from this have "last (dropWhile (\<lambda>x. \<not> allowed x) cs) = last cs"
      by (metis last_appendR takeWhile_dropWhile_id)
    ultimately have "dropWhile (\<lambda>x. \<not> allowed x) cs = [] \<or> allowed (last (dropWhile (\<lambda>x. \<not> allowed x) cs))"
      using l by simp
    with "2.IH"(2) False d show ?thesis
      by simp
  qed
qed

lemma replace_runs_run:
  assumes "run \<noteq> []" and "\<forall>c\<in>set run. \<not> allowed c" and "post = [] \<or> allowed (hd post)"
  shows "replace_runs allowed (run @ post) = 95 # replace_runs allowed post"
proof -
  from assms(1) obtain c cs where run: "run = c # cs"
    by (cases run) auto
  from assms(2) run have "dropWhile (\<lambda>x. \<not> allowed x) (cs @ post) = dropWhile (\<lambda>x. \<not> allowed x) post"
    by (intro dropWhile_append2) simp
  also from assms(3) have "\<dots> = post"
    by (cases post) auto
  finally show ?thesis
    using assms(2) run by simp
qed

text \<open>
  C4, as amended. The sanitized title is \<open>replace_runs title_char\<close> of the title: it is never
  longer than the title; a title all of whose code units are in the class is unchanged; and a
  maximal run of one or more code units outside the class (the text before it is empty or
  ends in the class, the text after it is empty or starts in the class) becomes one
  underscore, whatever its length.
\<close>

theorem sanitize_collapses_runs:
  "length (replace_runs title_char t) \<le> length t \<and>
   ((\<forall>c\<in>set t. title_char c) \<longrightarrow> replace_runs title_char t = t) \<and>
   (run \<noteq> [] \<and> (\<forall>c\<in>set run. \<not> title_char c) \<and>
    (pre = [] \<or> title_char (last pre)) \<and> (post = [] \<or> title_char (hd post)) \<longrightarrow>
      replace_runs title_char (pre @ run @ post) =
        replace_runs title_char pre @ [95] @ replace_runs title_char post)"
  using replace_runs_length [of title_char t] replace_runs_all_ok [of t title_char]
    replace_runs_append [of pre title_char "run @ post"] replace_runs_run [of run title_char post]
  by auto

theorem sanitize_collapses_runs_witness:
  "js '' ('' \<noteq> [] \<and> \<not> title_char 32 \<and> \<not> title_char 40 \<and> js '' ('' = [32, 40] \<and>
   title_char (last (js ''my file'')) \<and> title_char (hd (js ''1.txt'')) \<and>
   list_all title_char (js ''a.b'') \<and>
   replace_runs title_char (js ''a.b'') = js ''a.b'' \<and>
   replace_runs title_char (js ''my file'') @ [95] @ replace_runs title_char (js ''1.txt'') =
     js ''my_file_1.txt'' \<and>
   replace_runs title_char (js ''my file'' @ js '' ('' @ js ''1.txt'') = js ''my_file_1.txt''"
  using sanitize_collapses_runs [where t = "js ''a.b''" and run = "js '' (''"
      and pre = "js ''my file''" and post = "js ''1.txt''"]
  by (simp add: eval_strings title_char_def)

text \<open>
  The claim as stated fails: two blanks in a row become one underscore, not two, and the
  sanitized title is shorter than the title.
\<close>

theorem sanitize_each_counterexample:
  "replace_runs title_char (js ''a  b'') = js ''a_b'' \<and>
   replace_each title_char (js ''a  b'') = js ''a__b'' \<and>
   length (replace_runs title_char (js ''a  b'')) = 3 \<and> length (js ''a  b'') = 4"
  by (simp add: eval_strings title_char_def replace_each_def)

section \<open>The scanner\<close>

lemma find_sub_sound: "find_sub sub s = Some (before, after) \<Longrightarrow> s = before @ sub @ after"
proof (induction s arbitrary: before)
  case Nil
  then show ?case by (simp split: if_splits)
next
  case (Cons c cs)
  show ?case
  proof (cases "prefix sub (c # cs)")
    case True
    with Cons.prems have "before = []" and "after = drop (length sub) (c # cs)"
      by auto
    moreover from True have "c # cs = sub @ drop (length sub) (c # cs)"
      by (metis append_eq_conv_conj prefix_def)
    ultimately show ?thesis
      by simp
  next
    case False
    with Cons.prems obtain b where "find_sub sub cs = Some (b, after)" and "before = c # b"
      by auto
    with Cons.IH [of b] show ?thesis by simp
  qed
qed

lemma find_sub_None: "find_sub sub s = None \<longleftrightarrow> \<not> sublist sub s"
  by (induction s) (auto simp: sublist_Cons_right)

lemma prefix_overlap:
  assumes "prefix sub (c # b @ sub @ after)"
  shows "sublist sub ((c # b) @ butlast sub)"
proof (cases "sub = []")
  case True
  then show ?thesis by simp
next
  case False
  then have "length sub \<le> length ((c # b) @ butlast sub)"
    by simp
  moreover from False have "c # b @ sub @ after = ((c # b) @ butlast sub) @ last sub # after"
    by simp
  ultimately have "prefix sub ((c # b) @ butlast sub)"
    using assms by (metis prefix_length_prefix prefixI prefix_order.dual_order.refl prefix_append)
  then show ?thesis
    by (auto simp: prefix_def)
qed

lemma find_sub_here: "find_sub sub (sub @ after) = Some ([], after)"
proof (cases "sub @ after")
  case Nil
  then show ?thesis by simp
next
  case (Cons a list)
  then have p: "prefix sub (a # list)"
    by (metis prefixI)
  from Cons have d: "drop (length sub) (a # list) = after"
    by (metis append_eq_conv_conj)
  show ?thesis
    unfolding Cons by (simp only: find_sub.simps p d if_True)
qed

lemma find_sub_first:
  "\<not> sublist sub (before @ butlast sub) \<Longrightarrow> find_sub sub (before @ sub @ after) = Some (before, after)"
proof (induction before)
  case Nil
  show ?case
    by (simp add: find_sub_here)
next
  case (Cons c b)
  from Cons.prems have "\<not> prefix sub (c # b @ sub @ after)"
    using prefix_overlap [of sub c b after] by blast
  moreover from Cons.prems have "\<not> sublist sub (b @ butlast sub)"
    by (auto simp: sublist_Cons_right)
  ultimately show ?case
    using Cons.IH by simp
qed

lemma find_char_sound:
  "find_char c s = Some (before, after) \<Longrightarrow> s = before @ [c] @ after \<and> c \<notin> set before"
proof -
  assume h: "find_char c s = Some (before, after)"
  then have mem: "c \<in> set s"
    by (simp add: find_char_def split: if_splits)
  then obtain ys zs where s: "s = ys @ c # zs" and ys: "c \<notin> set ys"
    by (auto dest: split_list_first)
  from ys have ne: "\<And>x. x \<in> set ys \<Longrightarrow> x \<noteq> c"
    by auto
  then have "takeWhile (\<lambda>x. x \<noteq> c) s = ys" and "dropWhile (\<lambda>x. x \<noteq> c) s = c # zs"
    unfolding s by simp_all
  with h mem s ys show ?thesis
    by (simp add: find_char_def)
qed

lemma find_char_first:
  assumes "c \<notin> set before"
  shows "find_char c (before @ c # after) = Some (before, after)"
proof -
  from assms have "\<And>x. x \<in> set before \<Longrightarrow> x \<noteq> c"
    by auto
  then show ?thesis
    by (simp add: find_char_def)
qed

lemma match_here_sound:
  assumes "match_here s = Some (fullTag, body, rest)"
  shows "s = fullTag @ rest \<and> (\<exists>attrs. 62 \<notin> set attrs \<and> fullTag = open_tag @ attrs @ [62] @ body @ close_tag)"
proof -
  from assms obtain attrs r where
    p: "prefix open_tag s" and
    a: "find_char 62 (drop (length open_tag) s) = Some (attrs, r)" and
    b: "find_sub close_tag r = Some (body, rest)" and
    f: "fullTag = open_tag @ attrs @ [62] @ body @ close_tag"
    by (auto simp: match_here_def split: if_splits option.splits)
  from p have "s = open_tag @ drop (length open_tag) s"
    by (metis append_eq_conv_conj prefix_def)
  with find_char_sound [OF a] find_sub_sound [OF b] f show ?thesis
    by (metis append.assoc)
qed

lemma match_here_first:
  assumes "62 \<notin> set attrs" and "\<not> sublist close_tag (body @ butlast close_tag)"
  shows "match_here (open_tag @ attrs @ [62] @ body @ close_tag @ rest) =
    Some (open_tag @ attrs @ [62] @ body @ close_tag, body, rest)"
  using assms by (simp add: match_here_def find_char_first find_sub_first)

lemma scan_match: "match_here s = Some (fullTag, body, rest) \<Longrightarrow> scan s = make_artifact fullTag body # scan rest"
  by (subst scan.simps) simp

lemma scan_no_match: "match_here (c # cs) = None \<Longrightarrow> scan (c # cs) = scan cs"
  by (subst scan.simps) simp

lemma match_here_Nil: "match_here [] = None"
  by (simp add: match_here_def open_tag_def js_def)

lemma scan_Nil: "scan [] = []"
  by (subst scan.simps) (simp add: match_here_Nil)

lemma match_here_close: "match_here s = Some (fullTag, body, rest) \<Longrightarrow> sublist close_tag s"
proof -
  assume "match_here s = Some (fullTag, body, rest)"
  from match_here_sound [OF this] obtain attrs where
    "s = (open_tag @ attrs @ [62] @ body) @ close_tag @ rest"
    by auto
  then show ?thesis
    by (metis sublist_appendI)
qed

lemma scan_no_close: "\<not> sublist close_tag s \<Longrightarrow> scan s = []"
proof (induction s)
  case Nil
  show ?case by (rule scan_Nil)
next
  case (Cons c cs)
  from Cons.prems have "match_here (c # cs) = None"
    using match_here_close [of "c # cs"] by (cases "match_here (c # cs)") auto
  moreover from Cons.prems have "\<not> sublist close_tag cs"
    by (auto simp: sublist_Cons_right)
  ultimately show ?case
    using Cons.IH by (simp add: scan_no_match)
qed

lemma scan_skip:
  "\<not> sublist open_tag (pre @ butlast open_tag) \<Longrightarrow> scan (pre @ open_tag @ r) = scan (open_tag @ r)"
proof (induction pre)
  case Nil
  show ?case by simp
next
  case (Cons c pre)
  from Cons.prems have "\<not> prefix open_tag (c # pre @ open_tag @ r)"
    using prefix_overlap [of open_tag c pre r] by blast
  then have "match_here (c # pre @ open_tag @ r) = None"
    by (simp add: match_here_def)
  moreover from Cons.prems have "\<not> sublist open_tag (pre @ butlast open_tag)"
    by (auto simp: sublist_Cons_right)
  ultimately show ?case
    using Cons.IH by (simp add: scan_no_match)
qed

text \<open>
  C6. Take a text in which the first opening tag \<^verbatim>\<open><antArtifact attrs>\<close> is followed by a body,
  a second opening tag \<^verbatim>\<open><antArtifact attrs'>\<close>, a second body and then the only closing tag
  (no closing tag starts earlier after the first opening tag, none occurs later). Then
  \<^verbatim>\<open>extractArtifacts\<close> returns exactly one artifact; its region runs from the first opening tag
  to the closing tag, and its content is the trimmed text between them, in which the second
  opening tag stands as plain text. The inner block is not returned as an artifact of its own.
\<close>

theorem first_close_wins:
  assumes "\<not> sublist open_tag (pre @ butlast open_tag)"
    and "62 \<notin> set attrs" and "62 \<notin> set attrs'"
    and "\<not> sublist close_tag (body @ open_tag @ attrs' @ [62] @ body' @ butlast close_tag)"
    and "\<not> sublist close_tag post"
  shows "extractArtifacts
      (pre @ open_tag @ attrs @ [62] @ body @ open_tag @ attrs' @ [62] @ body' @ close_tag @ post) =
    [make_artifact
       (open_tag @ attrs @ [62] @ body @ open_tag @ attrs' @ [62] @ body' @ close_tag)
       (body @ open_tag @ attrs' @ [62] @ body')]"
proof -
  let ?inner = "body @ open_tag @ attrs' @ [62] @ body'"
  from assms(4) have "\<not> sublist close_tag (?inner @ butlast close_tag)"
    by simp
  with assms(2) have "match_here (open_tag @ attrs @ [62] @ ?inner @ close_tag @ post) =
      Some (open_tag @ attrs @ [62] @ ?inner @ close_tag, ?inner, post)"
    by (rule match_here_first)
  then have "scan (open_tag @ attrs @ [62] @ ?inner @ close_tag @ post) =
      make_artifact (open_tag @ attrs @ [62] @ ?inner @ close_tag) ?inner # scan post"
    by (rule scan_match)
  moreover from assms(5) have "scan post = []"
    by (rule scan_no_close)
  moreover from assms(1) have "scan (pre @ open_tag @ attrs @ [62] @ ?inner @ close_tag @ post) =
      scan (open_tag @ attrs @ [62] @ ?inner @ close_tag @ post)"
    by (rule scan_skip)
  ultimately show ?thesis
    by (simp add: extractArtifacts_def)
qed

theorem first_close_wins_witness:
  "\<not> sublist open_tag (js ''see '' @ butlast open_tag) \<and>
   62 \<notin> set (js '' title=\"a\"'') \<and> 62 \<notin> set (js '' title=\"b\"'') \<and>
   \<not> sublist close_tag (js '' x '' @ open_tag @ js '' title=\"b\"'' @ [62] @ js ''y'' @ butlast close_tag) \<and>
   \<not> sublist close_tag (js '' z'') \<and>
   js ''see '' @ open_tag @ js '' title=\"a\"'' @ [62] @ js '' x '' @ open_tag @ js '' title=\"b\"'' @ [62] @
     js ''y'' @ close_tag @ js '' z'' =
     js ''see <antArtifact title=\"a\"> x <antArtifact title=\"b\">y</antArtifact> z'' \<and>
   extractArtifacts (js ''see <antArtifact title=\"a\"> x <antArtifact title=\"b\">y</antArtifact> z'') =
     [\<lparr>title = js ''a'', language = js ''txt'', content = js ''x <antArtifact title=\"b\">y''\<rparr>]"
  using first_close_wins [of "js ''see ''" "js '' title=\"a\"''" "js '' title=\"b\"''" "js '' x ''" "js ''y''" "js '' z''"]
  by (simp add: eval_strings eval_extract sublist_Cons_right)

text \<open>
  Where the defaults do apply: for a match in whose region (opening tag, body and closing tag)
  \<^verbatim>\<open>title="\<close> occurs nowhere the title is \<^verbatim>\<open>Untitled\<close>, and likewise \<^verbatim>\<open>txt\<close> for the language.
\<close>

lemma defaults_when_text_absent:
  assumes "match_here s = Some (fullTag, body, rest)"
  shows "s = fullTag @ rest \<and> scan s = make_artifact fullTag body # scan rest \<and>
    (\<not> sublist (js ''title=\"'') fullTag \<longrightarrow> title (make_artifact fullTag body) = js ''Untitled'') \<and>
    (\<not> sublist (js ''language=\"'') fullTag \<longrightarrow> language (make_artifact fullTag body) = js ''txt'')"
proof -
  have "\<not> sublist (name @ js ''=\"'') fullTag \<Longrightarrow> attribute name fullTag = None" for name
    by (simp add: attribute_def find_sub_None [symmetric])
  from this [of "js ''title''"] this [of "js ''language''"]
  have "\<not> sublist (js ''title=\"'') fullTag \<longrightarrow> title (make_artifact fullTag body) = js ''Untitled''"
    and "\<not> sublist (js ''language=\"'') fullTag \<longrightarrow> language (make_artifact fullTag body) = js ''txt''"
    by (simp_all add: make_artifact_def js_def)
  with match_here_sound [OF assms] scan_match [OF assms] show ?thesis
    by simp
qed

text \<open>
  C5 does not hold of the code. The lookups of \<^verbatim>\<open>title\<close> and \<^verbatim>\<open>language\<close> run on \<^verbatim>\<open>match[0]\<close>,
  which holds the body too. An opening tag without attributes whose body mentions
  \<^verbatim>\<open>title="x"\<close> and \<^verbatim>\<open>language="y"\<close> yields the title \<^verbatim>\<open>x\<close> and the language \<^verbatim>\<open>y\<close>, not the
  defaults; and an artifact titled \<^verbatim>\<open>notes\<close> without a language attribute whose body mentions
  \<^verbatim>\<open>language="javascript"\<close> gets the language \<^verbatim>\<open>javascript\<close> and is written as
  \<^verbatim>\<open>Chat/notes.js\<close>, where the default \<^verbatim>\<open>txt\<close> would give \<^verbatim>\<open>Chat/notes.txt\<close>.
\<close>

theorem body_text_taken_for_attributes:
  "extractArtifacts (js ''<antArtifact>Set title=\"x\" and language=\"y\".</antArtifact>'') =
     [\<lparr>title = js ''x'', language = js ''y'', content = js ''Set title=\"x\" and language=\"y\".''\<rparr>] \<and>
   extractArtifacts (js ''<antArtifact title=\"notes\">Use language=\"javascript\" here.</antArtifact>'') =
     [\<lparr>title = js ''notes'', language = js ''javascript'',
       content = js ''Use language=\"javascript\" here.''\<rparr>] \<and>
   fst (getUniqueFileName (js ''notes'') (js ''javascript'') [] (js ''Chat'')) = js ''Chat/notes.js'' \<and>
   fst (getUniqueFileName (js ''notes'') (js ''txt'') [] (js ''Chat'')) = js ''Chat/notes.txt''"
  by (simp add: eval_strings eval_extract eval_alloc)

text \<open>
  C9. The attribute lookups read the whole matched region. An opening tag without attributes
  whose body contains \<^verbatim>\<open>title="x"\<close> yields the title \<^verbatim>\<open>x\<close>, not \<^verbatim>\<open>Untitled\<close>, and likewise for
  \<^verbatim>\<open>language="y"\<close>. In general, for every match whose region is
  \<open>before @ title=" @ after\<close> with no earlier occurrence of \<^verbatim>\<open>title="\<close>, wherever in the region
  that is, the title of the artifact is \<open>after\<close> up to its first double quote; the same holds
  for the language.
\<close>

theorem attributes_scan_whole_match:
  "extractArtifacts (js ''<antArtifact>title=\"x\"</antArtifact>'') =
     [\<lparr>title = js ''x'', language = js ''txt'', content = js ''title=\"x\"''\<rparr>] \<and>
   extractArtifacts (js ''<antArtifact>language=\"y\"</antArtifact>'') =
     [\<lparr>title = js ''Untitled'', language = js ''y'', content = js ''language=\"y\"''\<rparr>] \<and>
   (match_here s = Some (fullTag, body, rest) \<and> fullTag = before @ js ''title=\"'' @ after \<and>
    \<not> sublist (js ''title=\"'') (before @ butlast (js ''title=\"'')) \<longrightarrow>
      s = before @ js ''title=\"'' @ after @ rest \<and>
      title (hd (scan s)) = takeWhile (\<lambda>x. x \<noteq> 34) after) \<and>
   (match_here s = Some (fullTag, body, rest) \<and> fullTag = before' @ js ''language=\"'' @ after' \<and>
    \<not> sublist (js ''language=\"'') (before' @ butlast (js ''language=\"'')) \<longrightarrow>
      s = before' @ js ''language=\"'' @ after' @ rest \<and>
      language (hd (scan s)) = takeWhile (\<lambda>x. x \<noteq> 34) after')"
proof -
  have a: "attribute name (b @ (name @ js ''=\"'') @ a) = Some (takeWhile (\<lambda>x. x \<noteq> 34) a)"
    if "\<not> sublist (name @ js ''=\"'') (b @ butlast (name @ js ''=\"''))" for name b a
    using find_sub_first [OF that, of a] by (simp add: attribute_def)
  have t: "title (hd (scan s)) = takeWhile (\<lambda>x. x \<noteq> 34) after \<and> s = before @ js ''title=\"'' @ after @ rest"
    if "match_here s = Some (fullTag, body, rest)" and "fullTag = before @ js ''title=\"'' @ after"
      and "\<not> sublist (js ''title=\"'') (before @ butlast (js ''title=\"''))"
    using that a [of "js ''title''" before after] match_here_sound [OF that(1)] scan_match [OF that(1)]
    by (simp add: make_artifact_def js_def)
  have l: "language (hd (scan s)) = takeWhile (\<lambda>x. x \<noteq> 34) after' \<and> s = before' @ js ''language=\"'' @ after' @ rest"
    if "match_here s = Some (fullTag, body, rest)" and "fullTag = before' @ js ''language=\"'' @ after'"
      and "\<not> sublist (js ''language=\"'') (before' @ butlast (js ''language=\"''))"
    using that a [of "js ''language''" before' after'] match_here_sound [OF that(1)] scan_match [OF that(1)]
    by (simp add: make_artifact_def js_def)
  have "extractArtifacts (js ''<antArtifact>title=\"x\"</antArtifact>'') =
     [\<lparr>title = js ''x'', language = js ''txt'', content = js ''title=\"x\"''\<rparr>]"
    by (simp add: eval_strings eval_extract)
  moreover have "extractArtifacts (js ''<antArtifact>language=\"y\"</antArtifact>'') =
     [\<lparr>title = js ''Untitled'', language = js ''y'', content = js ''language=\"y\"''\<rparr>]"
    by (simp add: eval_strings eval_extract)
  ultimately show ?thesis
    using t l by blast
qed

theorem attributes_scan_whole_match_witness:
  "match_here (js ''<antArtifact>v title=\"x\" language=\"y\" </antArtifact>'') =
     Some (js ''<antArtifact>v title=\"x\" language=\"y\" </antArtifact>'', js ''v title=\"x\" language=\"y\" '', []) \<and>
   js ''<antArtifact>v title=\"x\" language=\"y\" </antArtifact>'' =
     js ''<antArtifact>v '' @ js ''title=\"'' @ js ''x\" language=\"y\" </antArtifact>'' \<and>
   \<not> sublist (js ''title=\"'') (js ''<antArtifact>v '' @ butlast (js ''title=\"'')) \<and>
   js ''<antArtifact>v title=\"x\" language=\"y\" </antArtifact>'' =
     js ''<antArtifact>v title=\"x\" '' @ js ''language=\"'' @ js ''y\" </antArtifact>'' \<and>
   \<not> sublist (js ''language=\"'') (js ''<antArtifact>v title=\"x\" '' @ butlast (js ''language=\"'')) \<and>
   title (hd (scan (js ''<antArtifact>v title=\"x\" language=\"y\" </antArtifact>''))) = js ''x'' \<and>
   language (hd (scan (js ''<antArtifact>v title=\"x\" language=\"y\" </antArtifact>''))) = js ''y''"
  using attributes_scan_whole_match [where s = "js ''<antArtifact>v title=\"x\" language=\"y\" </antArtifact>''"
      and fullTag = "js ''<antArtifact>v title=\"x\" language=\"y\" </antArtifact>''"
      and body = "js ''v title=\"x\" language=\"y\" ''" and rest = "[]"
      and before = "js ''<antArtifact>v ''" and after = "js ''x\" language=\"y\" </antArtifact>''"
      and before' = "js ''<antArtifact>v title=\"x\" ''" and after' = "js ''y\" </antArtifact>''"]
  by (simp add: eval_strings eval_extract sublist_Cons_right)

section \<open>The loop of the job\<close>

lemma process_entry_count:
  "processedCount (process_entry e orgId n st c) = processedCount st + 1"
  by (simp add: process_entry_def Let_def split: sum.splits prod.splits)

lemma process_entry_events:
  "\<exists>outcome. (outcome = Timeout 500 \<or> outcome = ConsoleError (uuid c)) \<and>
     events (process_entry e orgId n st c) =
       events st @ [ExportProgress (processedCount st + 1) n (display_name c),
                    FetchConversation orgId (uuid c), outcome]"
  by (simp add: process_entry_def Let_def split: sum.splits prod.splits)

lemma loop_count:
  "processedCount (foldl (process_entry e orgId n) st cs) = processedCount st + length cs"
  by (induction cs arbitrary: st) (simp_all add: process_entry_count)

lemma loop_requests:
  "[ev \<leftarrow> events (foldl (process_entry e orgId n) st cs). is_progress ev \<or> is_fetch ev] =
     [ev \<leftarrow> events st. is_progress ev \<or> is_fetch ev] @
     concat (map (\<lambda>(k, c). [ExportProgress k n (display_name c), FetchConversation orgId (uuid c)])
       (enumerate (processedCount st + 1) cs))"
proof (induction cs arbitrary: st)
  case Nil
  show ?case by simp
next
  case (Cons c cs)
  obtain outcome where o: "outcome = Timeout 500 \<or> outcome = ConsoleError (uuid c)"
    and ev: "events (process_entry e orgId n st c) =
       events st @ [ExportProgress (processedCount st + 1) n (display_name c),
                    FetchConversation orgId (uuid c), outcome]"
    using process_entry_events [of c e orgId n st] by blast
  from o have "\<not> is_progress outcome" and "\<not> is_fetch outcome"
    by auto
  with ev Cons.IH [of "process_entry e orgId n st c"] show ?case
    by (simp add: process_entry_count)
qed

lemma loop_progress:
  "[ev \<leftarrow> events (foldl (process_entry e orgId n) st cs). is_progress ev] =
     [ev \<leftarrow> events st. is_progress ev] @
     map (\<lambda>(k, c). ExportProgress k n (display_name c)) (enumerate (processedCount st + 1) cs)"
proof (induction cs arbitrary: st)
  case Nil
  show ?case by simp
next
  case (Cons c cs)
  obtain outcome where o: "outcome = Timeout 500 \<or> outcome = ConsoleError (uuid c)"
    and ev: "events (process_entry e orgId n st c) =
       events st @ [ExportProgress (processedCount st + 1) n (display_name c),
                    FetchConversation orgId (uuid c), outcome]"
    using process_entry_events [of c e orgId n st] by blast
  from o have "\<not> is_progress outcome"
    by auto
  with ev Cons.IH [of "process_entry e orgId n st c"] show ?case
    by (simp add: process_entry_count)
qed

lemma loop_no_transfer:
  "[ev \<leftarrow> events (foldl (process_entry e orgId n) st cs). is_transfer ev] =
     [ev \<leftarrow> events st. is_transfer ev]"
proof (induction cs arbitrary: st)
  case Nil
  show ?case by simp
next
  case (Cons c cs)
  obtain outcome where o: "outcome = Timeout 500 \<or> outcome = ConsoleError (uuid c)"
    and ev: "events (process_entry e orgId n st c) =
       events st @ [ExportProgress (processedCount st + 1) n (display_name c),
                    FetchConversation orgId (uuid c), outcome]"
    using process_entry_events [of c e orgId n st] by blast
  from o have "\<not> is_transfer outcome"
    by auto
  with ev Cons.IH [of "process_entry e orgId n st c"] show ?case
    by simp
qed

lemma export_events:
  assumes "fetchAllConversations e orgId = Inr cs"
  shows "\<exists>tail. fst (exportArtifacts e orgId) =
      FetchAllConversations orgId # events (run_loop e orgId cs) @ tail \<and>
      (\<forall>ev\<in>set tail. is_transfer ev)"
  using assms by (auto simp: exportArtifacts_def Let_def split: sum.splits)

lemma entry_succeeds:
  assumes "fetchConversation e k orgId (uuid c) = Inr full" and "k = processedCount st + 1"
    and "processConversation full (files st) (usedNames st) = (Inr m, files', used')"
  shows "totalArtifacts (process_entry e orgId n st c) = totalArtifacts st + m"
    and "conversationsWithArtifacts (process_entry e orgId n st c) =
      conversationsWithArtifacts st + (if 0 < m then 1 else 0)"
    and "files (process_entry e orgId n st c) = files'"
    and "usedNames (process_entry e orgId n st c) = used'"
  using assms by (simp_all add: process_entry_def Let_def)

lemma entry_fetch_fails:
  assumes "fetchConversation e k orgId (uuid c) = Inl err" and "k = processedCount st + 1"
  shows "totalArtifacts (process_entry e orgId n st c) = totalArtifacts st"
    and "conversationsWithArtifacts (process_entry e orgId n st c) = conversationsWithArtifacts st"
    and "files (process_entry e orgId n st c) = files st"
    and "usedNames (process_entry e orgId n st c) = usedNames st"
  using assms by (simp_all add: process_entry_def Let_def)

lemma entry_processing_fails:
  assumes "fetchConversation e k orgId (uuid c) = Inr full" and "k = processedCount st + 1"
    and "processConversation full (files st) (usedNames st) = (Inl err, files', used')"
  shows "totalArtifacts (process_entry e orgId n st c) = totalArtifacts st"
    and "conversationsWithArtifacts (process_entry e orgId n st c) = conversationsWithArtifacts st"
    and "files (process_entry e orgId n st c) = files'"
    and "usedNames (process_entry e orgId n st c) = used'"
  using assms by (simp_all add: process_entry_def Let_def)

lemma state_before_all: "state_before e orgId conversations (length conversations) = run_loop e orgId conversations"
  by (simp add: state_before_def run_loop_def)

lemma state_before_count:
  "i \<le> length conversations \<Longrightarrow> processedCount (state_before e orgId conversations i) = i"
  by (simp add: state_before_def loop_count start_def)

lemma state_before_Suc:
  "i < length conversations \<Longrightarrow>
   state_before e orgId conversations (Suc i) =
     process_entry e orgId (length conversations) (state_before e orgId conversations i) (conversations ! i)"
  by (simp add: state_before_def take_Suc_conv_app_nth)

lemma every_entry_processed:
  assumes i: "i < length conversations"
  shows "processedCount (state_before e orgId conversations i) = i"
    and "fetchConversation e (i + 1) orgId (uuid (conversations ! i)) = Inl err \<Longrightarrow>
      files (state_before e orgId conversations (Suc i)) = files (state_before e orgId conversations i) \<and>
      usedNames (state_before e orgId conversations (Suc i)) = usedNames (state_before e orgId conversations i) \<and>
      totalArtifacts (state_before e orgId conversations (Suc i)) =
        totalArtifacts (state_before e orgId conversations i) \<and>
      conversationsWithArtifacts (state_before e orgId conversations (Suc i)) =
        conversationsWithArtifacts (state_before e orgId conversations i)"
    and "fetchConversation e (i + 1) orgId (uuid (conversations ! i)) = Inr full \<Longrightarrow>
      processConversation full (files (state_before e orgId conversations i))
        (usedNames (state_before e orgId conversations i)) = (Inl err, fs', used') \<Longrightarrow>
      files (state_before e orgId conversations (Suc i)) = fs' \<and>
      usedNames (state_before e orgId conversations (Suc i)) = used' \<and>
      totalArtifacts (state_before e orgId conversations (Suc i)) =
        totalArtifacts (state_before e orgId conversations i) \<and>
      conversationsWithArtifacts (state_before e orgId conversations (Suc i)) =
        conversationsWithArtifacts (state_before e orgId conversations i)"
    and "fetchConversation e (i + 1) orgId (uuid (conversations ! i)) = Inr full \<Longrightarrow>
      processConversation full (files (state_before e orgId conversations i))
        (usedNames (state_before e orgId conversations i)) = (Inr m, fs', used') \<Longrightarrow>
      files (state_before e orgId conversations (Suc i)) = fs' \<and>
      usedNames (state_before e orgId conversations (Suc i)) = used' \<and>
      totalArtifacts (state_before e orgId conversations (Suc i)) =
        totalArtifacts (state_before e orgId conversations i) + m \<and>
      conversationsWithArtifacts (state_before e orgId conversations (Suc i)) =
        conversationsWithArtifacts (state_before e orgId conversations i) + (if 0 < m then 1 else 0)"
proof -
  let ?st = "state_before e orgId conversations i"
  from i show c: "processedCount ?st = i"
    by (simp add: state_before_count)
  then have k: "i + 1 = processedCount ?st + 1"
    by simp
  note s = state_before_Suc [OF i, of e orgId]
  show "fetchConversation e (i + 1) orgId (uuid (conversations ! i)) = Inl err \<Longrightarrow>
      files (state_before e orgId conversations (Suc i)) = files ?st \<and>
      usedNames (state_before e orgId conversations (Suc i)) = usedNames ?st \<and>
      totalArtifacts (state_before e orgId conversations (Suc i)) = totalArtifacts ?st \<and>
      conversationsWithArtifacts (state_before e orgId conversations (Suc i)) =
        conversationsWithArtifacts ?st"
    unfolding s using entry_fetch_fails [OF _ k] by simp
  show "fetchConversation e (i + 1) orgId (uuid (conversations ! i)) = Inr full \<Longrightarrow>
      processConversation full (files ?st) (usedNames ?st) = (Inl err, fs', used') \<Longrightarrow>
      files (state_before e orgId conversations (Suc i)) = fs' \<and>
      usedNames (state_before e orgId conversations (Suc i)) = used' \<and>
      totalArtifacts (state_before e orgId conversations (Suc i)) = totalArtifacts ?st \<and>
      conversationsWithArtifacts (state_before e orgId conversations (Suc i)) =
        conversationsWithArtifacts ?st"
    unfolding s using entry_processing_fails [OF _ k] by simp
  show "fetchConversation e (i + 1) orgId (uuid (conversations ! i)) = Inr full \<Longrightarrow>
      processConversation full (files ?st) (usedNames ?st) = (Inr m, fs', used') \<Longrightarrow>
      files (state_before e orgId conversations (Suc i)) = fs' \<and>
      usedNames (state_before e orgId conversations (Suc i)) = used' \<and>
      totalArtifacts (state_before e orgId conversations (Suc i)) = totalArtifacts ?st + m \<and>
      conversationsWithArtifacts (state_before e orgId conversations (Suc i)) =
        conversationsWithArtifacts ?st + (if 0 < m then 1 else 0)"
    unfolding s using entry_succeeds [OF _ k] by simp
qed

lemma second_of_three_fails:
  assumes f1: "fetchConversation e 1 orgId (uuid c1) = Inr full1"
    and f2: "fetchConversation e 2 orgId (uuid c2) = Inl err"
    and f3: "fetchConversation e 3 orgId (uuid c3) = Inr full3"
    and p1: "processConversation full1 [] [] = (Inr n1, files1, used1)"
    and p3: "processConversation full3 files1 used1 = (Inr n3, files3, used3)"
  shows "totalArtifacts (run_loop e orgId [c1, c2, c3]) = n1 + n3"
    and "conversationsWithArtifacts (run_loop e orgId [c1, c2, c3]) =
      (if 0 < n1 then 1 else 0) + (if 0 < n3 then 1 else 0)"
    and "files (run_loop e orgId [c1, c2, c3]) = files3"
proof -
  define st1 where "st1 = process_entry e orgId 3 start c1"
  define st2 where "st2 = process_entry e orgId 3 st1 c2"
  define st3 where "st3 = process_entry e orgId 3 st2 c3"
  have r: "run_loop e orgId [c1, c2, c3] = st3"
    by (simp add: run_loop_def st1_def st2_def st3_def numeral_3_eq_3)
  have k1: "(1::nat) = processedCount start + 1"
    by (simp add: start_def)
  have k2: "(2::nat) = processedCount st1 + 1"
    by (simp add: st1_def process_entry_count start_def)
  have k3: "(3::nat) = processedCount st2 + 1"
    by (simp add: st2_def st1_def process_entry_count start_def)
  from p1 have p1': "processConversation full1 (files start) (usedNames start) = (Inr n1, files1, used1)"
    by (simp add: start_def)
  note a = entry_succeeds [OF f1 k1 p1', of 3, folded st1_def]
  note b = entry_fetch_fails [OF f2 k2, of 3, folded st2_def]
  from p3 a b have p3': "processConversation full3 (files st2) (usedNames st2) = (Inr n3, files3, used3)"
    by simp
  note c = entry_succeeds [OF f3 k3 p3', of 3, folded st3_def]
  from a b c show "totalArtifacts (run_loop e orgId [c1, c2, c3]) = n1 + n3"
    unfolding r by (simp add: start_def)
  from a b c show "conversationsWithArtifacts (run_loop e orgId [c1, c2, c3]) =
      (if 0 < n1 then 1 else 0) + (if 0 < n3 then 1 else 0)"
    unfolding r by (simp add: start_def)
  from c show "files (run_loop e orgId [c1, c2, c3]) = files3"
    unfolding r by simp
qed

lemma fetch_index_example: "fetchAllConversations (failing_at index j full full') orgId = Inr index"
  by (simp add: fetchAllConversations_def failing_at_def)

lemma fetch_full_example:
  "fetchConversation (failing_at index j full full') k orgId conversationId =
     (if k = j then Inl (Error (js ''Failed to fetch conversation: 500''))
      else Inr (if k = 1 then full else full'))"
  by (simp add: fetchConversation_def failing_at_def toString.simps js_def)

lemma process_without_artifacts:
  "processConversation without_artifacts files' used = (Inr 0, files', used)"
  by (simp add: without_artifacts_def eval_process eval_strings eval_extract)

lemma process_with_string_body:
  "processConversation with_string_body [] [] =
     (Inr 1, [(js ''One/a.py.py'', js ''print(1)'')], [js ''One/a.py.py''])"
  by (simp add: with_string_body_def eval_process eval_strings eval_extract eval_alloc)

lemma process_with_blocks:
  "processConversation with_blocks [(js ''One/a.py.py'', js ''print(1)'')] [js ''One/a.py.py''] =
     (Inr 1, [(js ''One/a.py.py'', js ''print(1)''), (js ''Three/b.txt'', js ''hello'')],
      [js ''One/a.py.py'', js ''Three/b.txt''])"
  by (simp add: with_blocks_def eval_process eval_strings eval_extract eval_alloc)

lemma process_with_blocks_first:
  "processConversation with_blocks [] [] =
     (Inr 1, [(js ''Three/b.txt'', js ''hello'')], [js ''Three/b.txt''])"
  by (simp add: with_blocks_def eval_process eval_strings eval_extract eval_alloc)

text \<open>
  C10. When the index is fetched, the progress messages of the job are, in order, one for each
  entry of the index: the \<open>k\<close>-th carries \<^verbatim>\<open>current\<close> \<open>= k\<close>, \<^verbatim>\<open>total\<close> = the length of the index and
  the display name of the \<open>k\<close>-th entry, whatever happens to the fetch or the processing of any
  entry.
\<close>

theorem progress_numbered:
  assumes "fetchAllConversations e orgId = Inr conversations"
  shows "[ev \<leftarrow> fst (exportArtifacts e orgId). is_progress ev] =
      map (\<lambda>(k, c). ExportProgress k (length conversations) (display_name c)) (enumerate 1 conversations) \<and>
    (k < length conversations \<longrightarrow>
      [ev \<leftarrow> fst (exportArtifacts e orgId). is_progress ev] ! k =
        ExportProgress (k + 1) (length conversations) (display_name (conversations ! k)))"
proof -
  let ?n = "length conversations"
  from export_events [OF assms] obtain tail where
    ev: "fst (exportArtifacts e orgId) =
      FetchAllConversations orgId # events (run_loop e orgId conversations) @ tail"
    and tail: "\<forall>ev\<in>set tail. is_transfer ev"
    by blast
  from tail have "[ev \<leftarrow> tail. is_progress ev] = []"
    by (induction tail) (auto elim: is_transfer.elims)
  with ev have "[ev \<leftarrow> fst (exportArtifacts e orgId). is_progress ev] =
      [ev \<leftarrow> events (run_loop e orgId conversations). is_progress ev]"
    by simp
  also have "\<dots> = map (\<lambda>(k, c). ExportProgress k ?n (display_name c)) (enumerate 1 conversations)"
    using loop_progress [of e orgId ?n start conversations]
    by (simp add: run_loop_def start_def)
  finally have all: "[ev \<leftarrow> fst (exportArtifacts e orgId). is_progress ev] =
      map (\<lambda>(k, c). ExportProgress k ?n (display_name c)) (enumerate 1 conversations)" .
  have "k < ?n \<longrightarrow> map (\<lambda>(k, c). ExportProgress k ?n (display_name c)) (enumerate 1 conversations) ! k =
      ExportProgress (k + 1) ?n (display_name (conversations ! k))"
    by (simp add: nth_enumerate_eq)
  with all show ?thesis
    by simp
qed

theorem progress_numbered_witness:
  "fetchAllConversations (failing_at three_entries 2 with_string_body with_blocks) (js ''org'') =
     Inr three_entries \<and>
   [ev \<leftarrow> fst (exportArtifacts (failing_at three_entries 2 with_string_body with_blocks) (js ''org'')).
      is_progress ev] =
     [ExportProgress 1 3 (js ''One''), ExportProgress 2 3 (js ''Two''), ExportProgress 3 3 (js ''Three'')] \<and>
   2 < length three_entries \<and>
   [ev \<leftarrow> fst (exportArtifacts (failing_at three_entries 2 with_string_body with_blocks) (js ''org'')).
      is_progress ev] ! 2 = ExportProgress 3 3 (js ''Three'')"
proof -
  let ?e = "failing_at three_entries 2 with_string_body with_blocks"
  have i: "fetchAllConversations ?e (js ''org'') = Inr three_entries"
    by (rule fetch_index_example)
  from progress_numbered [OF i, of 2] i show ?thesis
    by (simp add: three_entries_def display_name_def entry_def js_def numeral_2_eq_2 numeral_3_eq_3)
qed

text \<open>
  C8. When the index is fetched and \<^verbatim>\<open>totalArtifacts\<close> is 0 after the loop, the response is
  \<^verbatim>\<open>{success: false, error: 'No artifacts found in any conversations'}\<close>, the message is not
  empty, and the job neither generates the archive nor starts a download.
\<close>

theorem zero_artifacts_fails:
  assumes "fetchAllConversations e orgId = Inr conversations"
    and "totalArtifacts (run_loop e orgId conversations) = 0"
  shows "snd (exportArtifacts e orgId) = Failed (js ''No artifacts found in any conversations'') \<and>
    js ''No artifacts found in any conversations'' \<noteq> [] \<and>
    [ev \<leftarrow> fst (exportArtifacts e orgId). is_transfer ev] = [] \<and>
    GenerateAsync \<notin> set (fst (exportArtifacts e orgId)) \<and>
    Download filename bytes \<notin> set (fst (exportArtifacts e orgId))"
proof -
  from assms have r: "exportArtifacts e orgId =
      (FetchAllConversations orgId # events (run_loop e orgId conversations),
       Failed (js ''No artifacts found in any conversations''))"
    by (simp add: exportArtifacts_def Let_def)
  have "[ev \<leftarrow> events (run_loop e orgId conversations). is_transfer ev] = []"
    using loop_no_transfer [of e orgId "length conversations" start conversations]
    by (simp add: run_loop_def start_def)
  with r have none: "[ev \<leftarrow> fst (exportArtifacts e orgId). is_transfer ev] = []"
    by simp
  then have "\<forall>ev\<in>set (fst (exportArtifacts e orgId)). \<not> is_transfer ev"
    by (simp add: filter_empty_conv)
  then have "GenerateAsync \<notin> set (fst (exportArtifacts e orgId))"
    and "Download filename bytes \<notin> set (fst (exportArtifacts e orgId))"
    by fastforce+
  with r none show ?thesis
    by (simp add: js_def)
qed

theorem zero_artifacts_fails_witness:
  "fetchAllConversations (failing_at three_entries 2 without_artifacts without_artifacts) (js ''org'') =
     Inr three_entries \<and>
   totalArtifacts (run_loop (failing_at three_entries 2 without_artifacts without_artifacts) (js ''org'')
     three_entries) = 0 \<and>
   snd (exportArtifacts (failing_at three_entries 2 without_artifacts without_artifacts) (js ''org'')) =
     Failed (js ''No artifacts found in any conversations'') \<and>
   GenerateAsync \<notin> set (fst (exportArtifacts (failing_at three_entries 2 without_artifacts without_artifacts)
     (js ''org'')))"
proof -
  let ?e = "failing_at three_entries 2 without_artifacts without_artifacts"
  have i: "fetchAllConversations ?e (js ''org'') = Inr three_entries"
    by (rule fetch_index_example)
  have "totalArtifacts (run_loop ?e (js ''org'')
      [entry ''u1'' ''One'', entry ''u2'' ''Two'', entry ''u3'' ''Three'']) = 0 + 0"
    by (rule second_of_three_fails(1) [where ?full1.0 = without_artifacts and ?full3.0 = without_artifacts
          and err = "Error (js ''Failed to fetch conversation: 500'')"])
      (simp_all add: fetch_full_example process_without_artifacts)
  then have z: "totalArtifacts (run_loop ?e (js ''org'') three_entries) = 0"
    by (simp add: three_entries_def)
  from zero_artifacts_fails [OF i z] i z show ?thesis
    by simp
qed

text \<open>
  C2, as amended. When the index is fetched, the progress messages and the requests for
  conversations of the job are, in order, for each entry of the index its progress message
  followed by its request: every entry is announced before its fetch, whatever was thrown for
  the entries before it. Every entry is processed: round \<open>i\<close> is request number \<open>i + 1\<close>; when its
  fetch throws, the archive, the set of names and the counts stay as the rounds before left
  them; when its fetch succeeds, \<^verbatim>\<open>processConversation\<close> runs on the fetched conversation with
  the archive and the set that the rounds before left, its writes are kept, and its count is
  added to the totals unless it throws; the loop ends after the last entry. With an index of
  three entries where the second fetch throws and the first and third conversations are fetched
  and processed without exception, the response is \<^verbatim>\<open>success: false\<close> when the two yield no
  artifact; when they yield at least one and the archive and the download succeed, it is
  \<^verbatim>\<open>success: true\<close> with the artifacts of the first and third, the number of these two that
  have artifacts, and \<^verbatim>\<open>totalConversations\<close> 3.
\<close>

theorem failure_of_one_entry_does_not_abort:
  assumes "fetchAllConversations e orgId = Inr conversations"
  shows "[ev \<leftarrow> fst (exportArtifacts e orgId). is_progress ev \<or> is_fetch ev] =
      concat (map (\<lambda>(k, c). [ExportProgress k (length conversations) (display_name c),
                              FetchConversation orgId (uuid c)])
        (enumerate 1 conversations)) \<and>
    run_loop e orgId conversations = state_before e orgId conversations (length conversations) \<and>
    (i < length conversations \<longrightarrow>
       processedCount (state_before e orgId conversations i) = i \<and>
       (fetchConversation e (i + 1) orgId (uuid (conversations ! i)) = Inl err' \<longrightarrow>
          files (state_before e orgId conversations (Suc i)) = files (state_before e orgId conversations i) \<and>
          usedNames (state_before e orgId conversations (Suc i)) =
            usedNames (state_before e orgId conversations i) \<and>
          totalArtifacts (state_before e orgId conversations (Suc i)) =
            totalArtifacts (state_before e orgId conversations i) \<and>
          conversationsWithArtifacts (state_before e orgId conversations (Suc i)) =
            conversationsWithArtifacts (state_before e orgId conversations i)) \<and>
       (fetchConversation e (i + 1) orgId (uuid (conversations ! i)) = Inr full \<and>
        processConversation full (files (state_before e orgId conversations i))
          (usedNames (state_before e orgId conversations i)) = (Inl err', fs', used') \<longrightarrow>
          files (state_before e orgId conversations (Suc i)) = fs' \<and>
          usedNames (state_before e orgId conversations (Suc i)) = used' \<and>
          totalArtifacts (state_before e orgId conversations (Suc i)) =
            totalArtifacts (state_before e orgId conversations i) \<and>
          conversationsWithArtifacts (state_before e orgId conversations (Suc i)) =
            conversationsWithArtifacts (state_before e orgId conversations i)) \<and>
       (fetchConversation e (i + 1) orgId (uuid (conversations ! i)) = Inr full \<and>
        processConversation full (files (state_before e orgId conversations i))
          (usedNames (state_before e orgId conversations i)) = (Inr m, fs', used') \<longrightarrow>
          files (state_before e orgId conversations (Suc i)) = fs' \<and>
          usedNames (state_before e orgId conversations (Suc i)) = used' \<and>
          totalArtifacts (state_before e orgId conversations (Suc i)) =
            totalArtifacts (state_before e orgId conversations i) + m \<and>
          conversationsWithArtifacts (state_before e orgId conversations (Suc i)) =
            conversationsWithArtifacts (state_before e orgId conversations i) + (if 0 < m then 1 else 0))) \<and>
    (conversations = [c1, c2, c3] \<and>
     fetchConversation e 1 orgId (uuid c1) = Inr full1 \<and>
     fetchConversation e 2 orgId (uuid c2) = Inl err \<and>
     fetchConversation e 3 orgId (uuid c3) = Inr full3 \<and>
     processConversation full1 [] [] = (Inr n1, files1, used1) \<and>
     processConversation full3 files1 used1 = (Inr n3, files3, used3) \<longrightarrow>
       (n1 + n3 = 0 \<longrightarrow>
          snd (exportArtifacts e orgId) = Failed (js ''No artifacts found in any conversations'')) \<and>
       (0 < n1 + n3 \<and> generateAsync e files3 = Inr bytes \<and>
        download_ok e (js ''claude-artifacts-'' @ today e @ js ''.zip'') bytes \<longrightarrow>
          snd (exportArtifacts e orgId) =
            Succeeded (n1 + n3) ((if 0 < n1 then 1 else 0) + (if 0 < n3 then 1 else 0)) 3))"
proof -
  from export_events [OF assms] obtain tail where
    ev: "fst (exportArtifacts e orgId) =
      FetchAllConversations orgId # events (run_loop e orgId conversations) @ tail"
    and tail: "\<forall>ev\<in>set tail. is_transfer ev"
    by blast
  from tail have "[ev \<leftarrow> tail. is_progress ev \<or> is_fetch ev] = []"
    by (induction tail) (auto elim: is_transfer.elims)
  with ev have "[ev \<leftarrow> fst (exportArtifacts e orgId). is_progress ev \<or> is_fetch ev] =
      [ev \<leftarrow> events (run_loop e orgId conversations). is_progress ev \<or> is_fetch ev]"
    by simp
  also have "\<dots> = concat (map (\<lambda>(k, c). [ExportProgress k (length conversations) (display_name c),
                              FetchConversation orgId (uuid c)]) (enumerate 1 conversations))"
    using loop_requests [of e orgId "length conversations" start conversations]
    by (simp add: run_loop_def start_def)
  finally have requests: "[ev \<leftarrow> fst (exportArtifacts e orgId). is_progress ev \<or> is_fetch ev] =
      concat (map (\<lambda>(k, c). [ExportProgress k (length conversations) (display_name c),
                              FetchConversation orgId (uuid c)]) (enumerate 1 conversations))" .
  have scenario: "(n1 + n3 = 0 \<longrightarrow>
          snd (exportArtifacts e orgId) = Failed (js ''No artifacts found in any conversations'')) \<and>
       (0 < n1 + n3 \<and> generateAsync e files3 = Inr bytes \<and>
        download_ok e (js ''claude-artifacts-'' @ today e @ js ''.zip'') bytes \<longrightarrow>
          snd (exportArtifacts e orgId) =
            Succeeded (n1 + n3) ((if 0 < n1 then 1 else 0) + (if 0 < n3 then 1 else 0)) 3)"
    if c: "conversations = [c1, c2, c3]"
      and f: "fetchConversation e 1 orgId (uuid c1) = Inr full1"
        "fetchConversation e 2 orgId (uuid c2) = Inl err"
        "fetchConversation e 3 orgId (uuid c3) = Inr full3"
      and p: "processConversation full1 [] [] = (Inr n1, files1, used1)"
        "processConversation full3 files1 used1 = (Inr n3, files3, used3)"
    using assms second_of_three_fails [OF f p] unfolding c
    by (auto simp: exportArtifacts_def Let_def)
  have whole: "run_loop e orgId conversations = state_before e orgId conversations (length conversations)"
    by (simp add: state_before_all)
  from requests whole scenario
    every_entry_processed(1) [where i = i and conversations = conversations and e = e and orgId = orgId]
    every_entry_processed(2) [where i = i and conversations = conversations and e = e and orgId = orgId
      and err = err']
    every_entry_processed(3) [where i = i and conversations = conversations and e = e and orgId = orgId
      and err = err' and full = full and fs' = fs' and used' = used']
    every_entry_processed(4) [where i = i and conversations = conversations and e = e and orgId = orgId
      and full = full and fs' = fs' and used' = used' and m = m]
  show ?thesis
    by blast
qed

theorem failure_of_one_entry_does_not_abort_witness:
  "fetchAllConversations (failing_at three_entries 2 with_string_body with_blocks) (js ''org'') = Inr three_entries \<and>
   fetchConversation (failing_at three_entries 2 with_string_body with_blocks) 2 (js ''org'') (js ''u2'') =
     Inl (Error (js ''Failed to fetch conversation: 500'')) \<and>
   processConversation with_string_body [] [] =
     (Inr 1, [(js ''One/a.py.py'', js ''print(1)'')], [js ''One/a.py.py'']) \<and>
   2 < length three_entries \<and>
   fetchConversation (failing_at three_entries 2 with_string_body with_blocks) (2 + 1) (js ''org'')
     (uuid (three_entries ! 2)) = Inr with_blocks \<and>
   files (state_before (failing_at three_entries 2 with_string_body with_blocks) (js ''org'') three_entries 2) =
     [(js ''One/a.py.py'', js ''print(1)'')] \<and>
   processConversation with_blocks [(js ''One/a.py.py'', js ''print(1)'')] [js ''One/a.py.py''] =
     (Inr 1, [(js ''One/a.py.py'', js ''print(1)''), (js ''Three/b.txt'', js ''hello'')],
      [js ''One/a.py.py'', js ''Three/b.txt'']) \<and>
   files (run_loop (failing_at three_entries 2 with_string_body with_blocks) (js ''org'') three_entries) =
     [(js ''One/a.py.py'', js ''print(1)''), (js ''Three/b.txt'', js ''hello'')] \<and>
   [ev \<leftarrow> fst (exportArtifacts (failing_at three_entries 2 with_string_body with_blocks) (js ''org'')).
      is_progress ev \<or> is_fetch ev] =
     [ExportProgress 1 3 (js ''One''), FetchConversation (js ''org'') (js ''u1''),
      ExportProgress 2 3 (js ''Two''), FetchConversation (js ''org'') (js ''u2''),
      ExportProgress 3 3 (js ''Three''), FetchConversation (js ''org'') (js ''u3'')] \<and>
   snd (exportArtifacts (failing_at three_entries 2 with_string_body with_blocks) (js ''org'')) =
     Succeeded 2 2 3"
proof -
  let ?e = "failing_at three_entries 2 with_string_body with_blocks"
  let ?files1 = "[(js ''One/a.py.py'', js ''print(1)'')]"
  let ?files3 = "[(js ''One/a.py.py'', js ''print(1)''), (js ''Three/b.txt'', js ''hello'')]"
  let ?before = "state_before ?e (js ''org'') three_entries 2"
  have i: "fetchAllConversations ?e (js ''org'') = Inr three_entries"
    by (rule fetch_index_example)
  have f2: "fetchConversation ?e 2 (js ''org'') (js ''u2'') =
      Inl (Error (js ''Failed to fetch conversation: 500''))"
    by (simp add: fetch_full_example)
  have scenario: "three_entries = [entry ''u1'' ''One'', entry ''u2'' ''Two'', entry ''u3'' ''Three''] \<and>
      fetchConversation ?e 1 (js ''org'') (uuid (entry ''u1'' ''One'')) = Inr with_string_body \<and>
      fetchConversation ?e 2 (js ''org'') (uuid (entry ''u2'' ''Two'')) =
        Inl (Error (js ''Failed to fetch conversation: 500'')) \<and>
      fetchConversation ?e 3 (js ''org'') (uuid (entry ''u3'' ''Three'')) = Inr with_blocks \<and>
      processConversation with_string_body [] [] = (Inr 1, ?files1, [js ''One/a.py.py'']) \<and>
      processConversation with_blocks ?files1 [js ''One/a.py.py''] =
        (Inr 1, ?files3, [js ''One/a.py.py'', js ''Three/b.txt''])"
    by (simp add: three_entries_def fetch_full_example process_with_string_body process_with_blocks)
  have finish: "0 < (1::nat) + 1 \<and> generateAsync ?e ?files3 = Inr (js ''PK'') \<and>
      download_ok ?e (js ''claude-artifacts-'' @ today ?e @ js ''.zip'') (js ''PK'')"
    by (simp add: failing_at_def)
  have third: "2 < length three_entries" and
    f3: "fetchConversation ?e (2 + 1) (js ''org'') (uuid (three_entries ! 2)) = Inr with_blocks"
    by (simp_all add: three_entries_def fetch_full_example)
  have before: "files ?before = ?files1" "usedNames ?before = [js ''One/a.py.py'']"
    by (simp_all add: state_before_def three_entries_def numeral_2_eq_2 process_entry_def Let_def
        start_def fetch_full_example process_with_string_body)
  then have p3: "processConversation with_blocks (files ?before) (usedNames ?before) =
      (Inr 1, ?files3, [js ''One/a.py.py'', js ''Three/b.txt''])"
    by (simp add: process_with_blocks)
  note t = failure_of_one_entry_does_not_abort [OF i, where bytes = "js ''PK''" and i = 2
      and full = with_blocks and m = 1 and fs' = ?files3
      and used' = "[js ''One/a.py.py'', js ''Three/b.txt'']"]
  from t third f3 p3 have "files (state_before ?e (js ''org'') three_entries (Suc 2)) = ?files3"
    by blast
  moreover from t have "run_loop ?e (js ''org'') three_entries =
      state_before ?e (js ''org'') three_entries (length three_entries)"
    by blast
  ultimately have all: "files (run_loop ?e (js ''org'') three_entries) = ?files3"
    by (simp add: three_entries_def numeral_3_eq_3)
  from t scenario finish
  have "[ev \<leftarrow> fst (exportArtifacts ?e (js ''org'')). is_progress ev \<or> is_fetch ev] =
      concat (map (\<lambda>(k, c). [ExportProgress k (length three_entries) (display_name c),
                              FetchConversation (js ''org'') (uuid c)])
        (enumerate 1 three_entries))"
    and "snd (exportArtifacts ?e (js ''org'')) =
      Succeeded (1 + 1) ((if 0 < (1::nat) then 1 else 0) + (if 0 < (1::nat) then 1 else 0)) 3"
    by blast+
  with i f2 third f3 before(1) all process_with_string_body process_with_blocks show ?thesis
    by (simp add: three_entries_def display_name_def entry_def js_def numeral_2_eq_2 numeral_3_eq_3)
qed

text \<open>
  The claim as stated fails: an index of three entries, only the second fetch throws, and the
  job answers \<^verbatim>\<open>success: false\<close>, because the first and the third conversation hold no
  artifact.
\<close>

theorem three_without_artifacts_counterexample:
  "fetchAllConversations (failing_at three_entries 2 without_artifacts without_artifacts) (js ''org'') =
     Inr three_entries \<and>
   length three_entries = 3 \<and>
   fetchConversation (failing_at three_entries 2 without_artifacts without_artifacts) 1 (js ''org'') (js ''u1'') =
     Inr without_artifacts \<and>
   fetchConversation (failing_at three_entries 2 without_artifacts without_artifacts) 2 (js ''org'') (js ''u2'') =
     Inl (Error (js ''Failed to fetch conversation: 500'')) \<and>
   fetchConversation (failing_at three_entries 2 without_artifacts without_artifacts) 3 (js ''org'') (js ''u3'') =
     Inr without_artifacts \<and>
   snd (exportArtifacts (failing_at three_entries 2 without_artifacts without_artifacts) (js ''org'')) =
     Failed (js ''No artifacts found in any conversations'')"
  by (simp add: fetch_index_example fetch_full_example process_without_artifacts
      exportArtifacts_def run_loop_def process_entry_def start_def three_entries_def Let_def)

text \<open>
  C7 does not hold of the code. The pacing \<^verbatim>\<open>setTimeout\<close> stands inside the \<^verbatim>\<open>try\<close> block, after
  the processing: when the first fetch of a job of two entries throws, the second entry starts
  right after \<^verbatim>\<open>console.error\<close>, with no pause between the two; the pause follows only the
  second, successful entry.
\<close>

theorem no_pause_after_failed_entry:
  "fst (exportArtifacts (failing_at [entry ''u1'' ''One'', entry ''u2'' ''Two''] 1 without_artifacts with_blocks)
     (js ''org'')) =
   [FetchAllConversations (js ''org''),
    ExportProgress 1 2 (js ''One''), FetchConversation (js ''org'') (js ''u1''), ConsoleError (js ''u1''),
    ExportProgress 2 2 (js ''Two''), FetchConversation (js ''org'') (js ''u2''), Timeout 500,
    GenerateAsync, Download (js ''claude-artifacts-2024-01-01.zip'') (js ''PK'')]"
proof -
  have "today (failing_at [entry ''u1'' ''One'', entry ''u2'' ''Two''] 1 without_artifacts with_blocks) =
      js ''2024-01-01''"
    and "\<And>files. generateAsync (failing_at [entry ''u1'' ''One'', entry ''u2'' ''Two''] 1 without_artifacts with_blocks)
      files = Inr (js ''PK'')"
    by (simp_all add: failing_at_def)
  then show ?thesis
    by (simp add: fetch_index_example fetch_full_example process_with_blocks_first
        exportArtifacts_def run_loop_def process_entry_def start_def Let_def display_name_def entry_def js_def)
qed

section \<open>The text of a message\<close>

lemma block_texts_concat:
  "block_texts (map (\<lambda>t. Block (Some t)) ts) acc = Inr (acc @ concat ts)"
  by (induction ts arbitrary: acc) simp_all

lemma messageText_shapes:
  "messageText \<lparr>sender = s, message_content = Str t, message_text = l\<rparr> = Inr t"
  "messageText \<lparr>sender = s, message_content = Blocks (map (\<lambda>t. Block (Some t)) ts), message_text = l\<rparr> =
     Inr (concat ts)"
  "messageText \<lparr>sender = s, message_content = Other, message_text = Some t\<rparr> = Inr t"
  by (simp_all add: messageText_def block_texts_concat)

text \<open>
  C3 does not hold of the code. The same tagged text yields one artifact as a string body and
  as a content block, and also as the \<^verbatim>\<open>text\<close> field beside a \<^verbatim>\<open>content\<close> that is some other
  truthy value; as the \<^verbatim>\<open>text\<close> field of a message without \<^verbatim>\<open>content\<close>, the legacy shape, it
  yields nothing, because the guard \<^verbatim>\<open>message.content\<close> skips the message.
\<close>

theorem legacy_text_field_skipped:
  "processConversation (legacy_message (Str tagged_text) None) [] [] =
     (Inr 1, [(js ''Chat/a.txt'', js ''x'')], [js ''Chat/a.txt'']) \<and>
   processConversation (legacy_message (Blocks [Block (Some tagged_text)]) None) [] [] =
     (Inr 1, [(js ''Chat/a.txt'', js ''x'')], [js ''Chat/a.txt'']) \<and>
   processConversation (legacy_message Other (Some tagged_text)) [] [] =
     (Inr 1, [(js ''Chat/a.txt'', js ''x'')], [js ''Chat/a.txt'']) \<and>
   processConversation (legacy_message Absent (Some tagged_text)) [] [] = (Inr 0, [], [])"
  by (simp add: legacy_message_def tagged_text_def eval_process eval_strings eval_extract eval_alloc)

end
